theory Spec2Isabelle
  imports Main "HOL-Library.Sublist"
begin

section \<open>Strings of the runtime\<close>

text \<open>
  A string of the program is a sequence of UTF-16 code units; a code unit is modelled as
  a natural number, so that \<open>length\<close> counts what \<open>String.length\<close> counts and the
  arrow of \<open>formatElement\<close> (U+2192) is one unit. Literals are written
  \<open>js ''...''\<close>.
\<close>

type_synonym jsstring = "nat list"

definition js :: "string \<Rightarrow> jsstring" where
  "js s = map of_char s"

text \<open>\<open>s.startsWith(p)\<close> and \<open>s.includes(p)\<close> (\<open>includes\<close> is a keyword of the prover).\<close>

fun startsWith :: "jsstring \<Rightarrow> jsstring \<Rightarrow> bool" where
  "startsWith s [] = True"
| "startsWith [] (p # ps) = False"
| "startsWith (c # s) (p # ps) = (c = p \<and> startsWith s ps)"

fun includesStr :: "jsstring \<Rightarrow> jsstring \<Rightarrow> bool" where
  "includesStr [] p = (p = [])"
| "includesStr (c # s) p = (startsWith (c # s) p \<or> includesStr s p)"

text \<open>
  \<open>s.toLowerCase()\<close>. The capitals of ASCII and Latin-1 are mapped as ECMAScript maps
  them, and so are the two characters outside Latin-1 whose lower case holds an ASCII
  letter (U+0130 gives \<open>i\<close> and U+0307, the Kelvin sign U+212A gives \<open>k\<close>). Every
  other code unit is kept. The program only ever searches a lowered string for ASCII
  keywords, and for those searches the result is the one of the runtime.
\<close>

definition lowerUnit :: "nat \<Rightarrow> jsstring" where
  "lowerUnit c =
     (if 65 \<le> c \<and> c \<le> 90 then [c + 32]
      else if 192 \<le> c \<and> c \<le> 222 \<and> c \<noteq> 215 then [c + 32]
      else if c = 304 then [105, 775]
      else if c = 8490 then [107]
      else [c])"

definition toLowerCase :: "jsstring \<Rightarrow> jsstring" where
  "toLowerCase s = concat (map lowerUnit s)"

section \<open>StateManager (src/agent/StateManager.ts)\<close>

text \<open>
  The numbers of the tracker are step and failure counts; they are modelled as
  integers (the specification's data model declares them integers).
\<close>

datatype ExitReason = Success | Max_steps | Max_failures | User_interrupt | Error

record AgentState =
  currentStep :: int
  maxSteps :: int
  consecutiveFailures :: int
  isDone :: bool
  shouldStop :: bool

record StateManagerConfig =
  cfg_maxSteps :: "int option"
  cfg_maxConsecutiveFailures :: "int option"

record StateManager =
  state :: AgentState
  maxConsecutiveFailures :: int

text \<open>The constructor: \<open>??\<close> replaces an absent option by the default.\<close>

definition new_StateManager :: "StateManagerConfig \<Rightarrow> StateManager" where
  "new_StateManager config =
     \<lparr> state = \<lparr> currentStep = 0,
                 maxSteps = (case cfg_maxSteps config of None \<Rightarrow> 100 | Some n \<Rightarrow> n),
                 consecutiveFailures = 0,
                 isDone = False,
                 shouldStop = False \<rparr>,
       maxConsecutiveFailures =
         (case cfg_maxConsecutiveFailures config of None \<Rightarrow> 3 | Some t \<Rightarrow> t) \<rparr>"

definition nextStep :: "StateManager \<Rightarrow> StateManager" where
  "nextStep m = m\<lparr> state := (state m)\<lparr> currentStep := currentStep (state m) + 1 \<rparr> \<rparr>"

definition recordSuccess :: "StateManager \<Rightarrow> StateManager" where
  "recordSuccess m = m\<lparr> state := (state m)\<lparr> consecutiveFailures := 0 \<rparr> \<rparr>"

definition recordFailure :: "StateManager \<Rightarrow> StateManager" where
  "recordFailure m =
     (let s = (state m)\<lparr> consecutiveFailures := consecutiveFailures (state m) + 1 \<rparr>
      in if consecutiveFailures s \<ge> maxConsecutiveFailures m
         then m\<lparr> state := s\<lparr> shouldStop := True \<rparr> \<rparr>
         else m\<lparr> state := s \<rparr>)"

definition markComplete :: "StateManager \<Rightarrow> StateManager" where
  "markComplete m = m\<lparr> state := (state m)\<lparr> isDone := True, shouldStop := True \<rparr> \<rparr>"

definition markFailed :: "StateManager \<Rightarrow> StateManager" where
  "markFailed m = m\<lparr> state := (state m)\<lparr> shouldStop := True \<rparr> \<rparr>"

definition shouldContinue :: "StateManager \<Rightarrow> bool" where
  "shouldContinue m =
     (if shouldStop (state m) then False
      else if isDone (state m) then False
      else if currentStep (state m) \<ge> maxSteps (state m) then False
      else True)"

definition isLastStep :: "StateManager \<Rightarrow> bool" where
  "isLastStep m = (currentStep (state m) \<ge> maxSteps (state m) - 1)"

definition getExitReason :: "StateManager \<Rightarrow> ExitReason" where
  "getExitReason m =
     (if isDone (state m) then Success
      else if consecutiveFailures (state m) \<ge> maxConsecutiveFailures m then Max_failures
      else if currentStep (state m) \<ge> maxSteps (state m) then Max_steps
      else if shouldStop (state m) then Error
      else Success)"

definition getState :: "StateManager \<Rightarrow> AgentState" where
  "getState m = state m"

definition getCurrentStep :: "StateManager \<Rightarrow> int" where
  "getCurrentStep m = currentStep (state m)"

definition getMaxSteps :: "StateManager \<Rightarrow> int" where
  "getMaxSteps m = maxSteps (state m)"

definition getConsecutiveFailures :: "StateManager \<Rightarrow> int" where
  "getConsecutiveFailures m = consecutiveFailures (state m)"

text \<open>The five mutating operations of the tracker, as values, and a sequence of calls.\<close>

datatype TrackerOp = NextStep | RecordSuccess | RecordFailure | MarkComplete | MarkFailed

fun apply_op :: "StateManager \<Rightarrow> TrackerOp \<Rightarrow> StateManager" where
  "apply_op m NextStep = nextStep m"
| "apply_op m RecordSuccess = recordSuccess m"
| "apply_op m RecordFailure = recordFailure m"
| "apply_op m MarkComplete = markComplete m"
| "apply_op m MarkFailed = markFailed m"

definition apply_ops :: "StateManager \<Rightarrow> TrackerOp list \<Rightarrow> StateManager" where
  "apply_ops m ops = foldl apply_op m ops"

text \<open>
  A sequence of calls that drives the tracker and records no failure: \<open>nextStep\<close> is
  called only where \<open>shouldContinue\<close> holds, \<open>recordSuccess\<close> anywhere, and no
  other operation.
\<close>

fun drivenBy :: "StateManager \<Rightarrow> TrackerOp list \<Rightarrow> bool" where
  "drivenBy m [] = True"
| "drivenBy m (NextStep # ops) = (shouldContinue m \<and> drivenBy (nextStep m) ops)"
| "drivenBy m (RecordSuccess # ops) = drivenBy (recordSuccess m) ops"
| "drivenBy m (op # ops) = False"

text \<open>
  The bare driving loop: \<open>while (m.shouldContinue()) m.nextStep();\<close>. Each round
  brings \<open>currentStep\<close> one closer to \<open>maxSteps\<close>, which is the termination measure.
\<close>

function drive :: "StateManager \<Rightarrow> StateManager" where
  "drive m = (if shouldContinue m then drive (nextStep m) else m)"
  by pat_completeness auto
termination
  by (relation "measure (\<lambda>m. nat (maxSteps (state m) - currentStep (state m)))")
     (auto simp: shouldContinue_def nextStep_def split: if_splits)

declare drive.simps [simp del]

section \<open>PromptBuilder.parseResponse and BrowserBot.run (src/agent)\<close>

record Evaluation =
  isComplete :: bool
  isFailed :: bool

text \<open>
  \<open>PromptBuilder.parseResponse\<close>: the two verdict flags (the extracted sections are
  not used by the loop).
\<close>

definition parseResponse :: "jsstring \<Rightarrow> Evaluation" where
  "parseResponse response =
     (let lowerResponse = toLowerCase response in
      \<lparr> isComplete =
          (includesStr lowerResponse (js ''task complete'') \<or>
           includesStr lowerResponse (js ''successfully completed'') \<or>
           includesStr lowerResponse (js ''task finished'')),
        isFailed =
          (includesStr lowerResponse (js ''task failed'') \<or>
           includesStr lowerResponse (js ''cannot complete'') \<or>
           includesStr lowerResponse (js ''unable to proceed'')) \<rparr>)"

text \<open>\<open>BrowserBot.evaluateResponse\<close>: completion wins over failure.\<close>

definition evaluateResponse :: "jsstring \<Rightarrow> Evaluation" where
  "evaluateResponse response =
     (let parsed = parseResponse response in
      if isComplete parsed then \<lparr> isComplete = True, isFailed = False \<rparr>
      else if isFailed parsed then \<lparr> isComplete = False, isFailed = True \<rparr>
      else \<lparr> isComplete = False, isFailed = False \<rparr>)"

text \<open>
  What the \<open>try\<close> block of one iteration meets: the model provider either raises
  (the \<open>catch\<close> branch runs) or streams a response text to its end.
\<close>

datatype Turn = Raises | Responds jsstring

record RunOptions =
  opt_maxSteps :: "int option"
  opt_maxFailures :: "int option"

record TaskResult =
  success :: bool
  message :: jsstring
  stepsTaken :: int
  exitReason :: ExitReason

text \<open>
  The \<open>while\<close> loop of \<open>BrowserBot.run\<close>. \<open>turns i\<close> is what the i-th iteration
  of this run meets; \<open>maxFailures\<close> is \<open>options?.maxFailures ?? 3\<close>. A \<open>break\<close>
  returns the tracker as it is.
\<close>

function run_loop :: "(nat \<Rightarrow> Turn) \<Rightarrow> int \<Rightarrow> nat \<Rightarrow> StateManager \<Rightarrow> StateManager" where
  "run_loop turns maxFailures i m =
     (if shouldContinue m then
        (case turns i of
           Responds llmResponse \<Rightarrow>
             if isComplete (evaluateResponse llmResponse) then markComplete (nextStep m)
             else if isFailed (evaluateResponse llmResponse) then markFailed (nextStep m)
             else run_loop turns maxFailures (Suc i) (recordSuccess (nextStep m))
         | Raises \<Rightarrow>
             if getConsecutiveFailures (recordFailure (nextStep m)) \<ge> maxFailures
             then recordFailure (nextStep m)
             else run_loop turns maxFailures (Suc i) (recordFailure (nextStep m)))
      else m)"
  by pat_completeness auto
termination
  by (relation "measure (\<lambda>(turns, maxFailures, i, m).
        nat (maxSteps (state m) - currentStep (state m)))")
     (auto simp: shouldContinue_def nextStep_def recordSuccess_def recordFailure_def
           Let_def split: if_splits)

declare run_loop.simps [simp del]

definition exitReasonText :: "ExitReason \<Rightarrow> jsstring" where
  "exitReasonText r =
     (case r of Success \<Rightarrow> js ''success'' | Max_steps \<Rightarrow> js ''max_steps''
      | Max_failures \<Rightarrow> js ''max_failures'' | User_interrupt \<Rightarrow> js ''user_interrupt''
      | Error \<Rightarrow> js ''error'')"

text \<open>\<open>BrowserBot.buildResult\<close>, without the conversation history of the provider.\<close>

definition buildResult :: "StateManager \<Rightarrow> TaskResult" where
  "buildResult m =
     \<lparr> success = isDone (getState m),
       message = (if getExitReason m = Success then js ''Task completed successfully''
                  else js ''Task stopped: '' @ exitReasonText (getExitReason m)),
       stepsTaken = currentStep (getState m),
       exitReason = getExitReason m \<rparr>"

text \<open>
  \<open>BrowserBot.run\<close> on a bot whose tracker is \<open>m0\<close> (a fresh bot holds
  \<open>new StateManager()\<close>). The tracker is rebuilt only when \<open>options.maxSteps\<close> is
  truthy, and then from \<open>maxSteps\<close> alone. After the loop the media check reads the
  page and may wait for the user; it does not touch the tracker.
\<close>

definition run :: "StateManager \<Rightarrow> RunOptions \<Rightarrow> (nat \<Rightarrow> Turn) \<Rightarrow> TaskResult" where
  "run m0 options turns =
     (let m = (case opt_maxSteps options of
                 None \<Rightarrow> m0
               | Some n \<Rightarrow> if n = 0 then m0
                          else new_StateManager \<lparr> cfg_maxSteps = Some n,
                                                 cfg_maxConsecutiveFailures = None \<rparr>);
          maxFailures = (case opt_maxFailures options of None \<Rightarrow> 3 | Some f \<Rightarrow> f)
      in buildResult (run_loop turns maxFailures 0 m))"

definition fresh_bot :: StateManager where
  "fresh_bot = new_StateManager \<lparr> cfg_maxSteps = None, cfg_maxConsecutiveFailures = None \<rparr>"


section \<open>ResponseTrimmer (src/playwright/ResponseTrimmer.ts)\<close>

subsection \<open>The string operations it uses\<close>

text \<open>
  The class \<open>\s\<close> of a regular expression, which is also what \<open>trim\<close> strips:
  the white space and line terminators of ECMAScript.
\<close>

definition isSpace :: "nat \<Rightarrow> bool" where
  "isSpace c = (c \<in> {9, 10, 11, 12, 13, 32, 160, 5760, 8232, 8233, 8239, 8287, 12288, 65279}
                \<or> (8192 \<le> c \<and> c \<le> 8202))"

text \<open>The class \<open>\w\<close>: ASCII letters, digits and the underscore.\<close>

definition isWord :: "nat \<Rightarrow> bool" where
  "isWord c = ((48 \<le> c \<and> c \<le> 57) \<or> (65 \<le> c \<and> c \<le> 90) \<or> c = 95 \<or> (97 \<le> c \<and> c \<le> 122))"

definition trim :: "jsstring \<Rightarrow> jsstring" where
  "trim s = rev (dropWhile isSpace (rev (dropWhile isSpace s)))"

text \<open>
  \<open>s.split(sep)\<close> for a separator string that is not empty: the pieces between the
  occurrences of \<open>sep\<close>, found from the left and not overlapping. Where an
  occurrence starts, a piece ends and the search goes on behind the occurrence (of
  \<open>c # s\<close> the separator's length is dropped, that is one unit less of \<open>s\<close>);
  elsewhere the first piece grows by one unit. The result is never empty, so the first
  branch of the \<open>case\<close> is never taken.
\<close>

function splitStr :: "jsstring \<Rightarrow> jsstring \<Rightarrow> jsstring list" where
  "splitStr sep [] = [[]]"
| "splitStr sep (c # s) =
     (if startsWith (c # s) sep then [] # splitStr sep (drop (length sep - 1) s)
      else (case splitStr sep s of [] \<Rightarrow> [[c]] | p # ps \<Rightarrow> (c # p) # ps))"
  by pat_completeness auto
termination
  by (relation "measure (\<lambda>(sep, s). length s)") auto

text \<open>\<open>parts.join(sep)\<close>.\<close>

fun joinStr :: "jsstring \<Rightarrow> jsstring list \<Rightarrow> jsstring" where
  "joinStr sep [] = []"
| "joinStr sep [x] = x"
| "joinStr sep (x # y # ys) = x @ sep @ joinStr sep (y # ys)"

text \<open>The decimal digits of a count, as a template literal prints it.\<close>

function natToString :: "nat \<Rightarrow> jsstring" where
  "natToString n = (if n < 10 then [48 + n] else natToString (n div 10) @ [48 + n mod 10])"
  by pat_completeness auto
termination
  by (relation "measure id") auto

declare natToString.simps [simp del]

subsection \<open>Elements and the three sets of the class\<close>

record YAMLElement =
  elType :: jsstring
  role :: jsstring
  name :: jsstring
  ref :: jsstring
  url :: jsstring
  visible :: bool

definition SKIP_ROLES :: "jsstring list" where
  "SKIP_ROLES = [js ''separator'', js ''none'', js ''presentation'', js ''generic'']"

definition INTERACTIVE_ROLES :: "jsstring list" where
  "INTERACTIVE_ROLES =
     [js ''button'', js ''link'', js ''textbox'', js ''searchbox'', js ''combobox'',
      js ''listbox'', js ''checkbox'', js ''radio'', js ''tab'', js ''menuitem'',
      js ''option'', js ''slider'', js ''spinbutton'']"

definition SKIP_NAVIGATION_KEYWORDS :: "jsstring list" where
  "SKIP_NAVIGATION_KEYWORDS =
     [js ''skip to'', js ''skip navigation'', js ''keyboard shortcuts'', js ''accessibility'']"

subsection \<open>parseYAMLLine\<close>

text \<open>
  Each \<open>line.match(re)\<close> finds the leftmost match, and every quantifier of these five
  expressions is followed by something its own class excludes, so that giving back a
  unit never helps: a greedy run is the whole run.

  \<open>/^-\s+(\w+)/\<close>: a hyphen first, then white space, then the role.
\<close>

definition matchRole :: "jsstring \<Rightarrow> jsstring option" where
  "matchRole line =
     (case line of
        [] \<Rightarrow> None
      | c # rest \<Rightarrow>
          if c = 45 \<and> takeWhile isSpace rest \<noteq> [] \<and> takeWhile isWord (dropWhile isSpace rest) \<noteq> []
          then Some (takeWhile isWord (dropWhile isSpace rest))
          else None)"

text \<open>\<open>/"([^"]+)"/\<close>: the first quote that is followed by a non-empty run and a quote.\<close>

fun matchName :: "jsstring \<Rightarrow> jsstring option" where
  "matchName [] = None"
| "matchName (c # s) =
     (if c = 34 \<and> takeWhile (\<lambda>x. x \<noteq> 34) s \<noteq> [] \<and> dropWhile (\<lambda>x. x \<noteq> 34) s \<noteq> []
      then Some (takeWhile (\<lambda>x. x \<noteq> 34) s)
      else matchName s)"

text \<open>\<open>/\[ref=(\w+)\]/\<close>.\<close>

fun matchRef :: "jsstring \<Rightarrow> jsstring option" where
  "matchRef [] = None"
| "matchRef (c # s) =
     (if startsWith (c # s) (js ''[ref='')
         \<and> takeWhile isWord (drop 5 (c # s)) \<noteq> []
         \<and> startsWith (dropWhile isWord (drop 5 (c # s))) (js '']'')
      then Some (takeWhile isWord (drop 5 (c # s)))
      else matchRef s)"

text \<open>
  \<open>/\/url:\s*"?([^"\s]+)"?/\<close>: after \<open>/url:\<close> the white space, one quote if there
  is one, and the run up to the next quote or white space.
\<close>

definition afterQuote :: "jsstring \<Rightarrow> jsstring" where
  "afterQuote s = (case s of [] \<Rightarrow> [] | c # r \<Rightarrow> if c = 34 then r else c # r)"

fun matchUrl :: "jsstring \<Rightarrow> jsstring option" where
  "matchUrl [] = None"
| "matchUrl (c # s) =
     (if startsWith (c # s) (js ''/url:'')
         \<and> takeWhile (\<lambda>x. x \<noteq> 34 \<and> \<not> isSpace x)
              (afterQuote (dropWhile isSpace (drop 5 (c # s)))) \<noteq> []
      then Some (takeWhile (\<lambda>x. x \<noteq> 34 \<and> \<not> isSpace x)
              (afterQuote (dropWhile isSpace (drop 5 (c # s)))))
      else matchUrl s)"

definition parseYAMLLine :: "jsstring \<Rightarrow> YAMLElement option" where
  "parseYAMLLine line =
     (case matchRole line of
        None \<Rightarrow> None
      | Some r \<Rightarrow>
          Some \<lparr> elType = js ''element'',
                 role = r,
                 name = (case matchName line of Some n \<Rightarrow> n | None \<Rightarrow> []),
                 ref = (case matchRef line of Some i \<Rightarrow> i | None \<Rightarrow> []),
                 url = (case matchUrl line of Some u \<Rightarrow> u | None \<Rightarrow> []),
                 visible = (\<not> includesStr line (js ''(hidden)'')) \<rparr>)"

subsection \<open>isInteractive, formatElement, getIndentLevel\<close>

definition isInteractive :: "YAMLElement \<Rightarrow> bool" where
  "isInteractive element =
     (if \<not> visible element then False
      else if role element \<noteq> [] \<and> role element \<in> set INTERACTIVE_ROLES then True
      else if role element \<noteq> [] \<and> role element \<in> set SKIP_ROLES then False
      else if url element \<noteq> [] then True
      else if name element \<noteq> [] \<and> length (name element) > 2 then True
      else False)"

text \<open>The arrow of the last part is the one code unit U+2192.\<close>

definition formatElement :: "YAMLElement \<Rightarrow> jsstring option" where
  "formatElement element =
     (if ref element = [] then None
      else Some (joinStr (js '' '')
        ([js ''['' @ ref element @ js '']'']
         @ (if role element \<noteq> [] then [role element] else [])
         @ (if name element \<noteq> [] then [[34] @ name element @ [34]] else [])
         @ (if url element \<noteq> [] then [[8594, 32] @ url element] else []))))"

fun getIndentLevel :: "jsstring \<Rightarrow> nat" where
  "getIndentLevel [] = 0"
| "getIndentLevel (c # s) =
     (if c = 32 then getIndentLevel s + 1
      else if c = 9 then getIndentLevel s + 2
      else 0)"

subsection \<open>trimYAMLSnapshot\<close>

text \<open>
  The first loop, over at most ten lines: the last line holding \<open>URL:\<close> gives the
  url, the last one holding \<open>Title:\<close> and no \<open>URL:\<close> gives the title.
  \<open>x.split(sep)[1]?.trim() || ''\<close> is the trimmed second piece, or the empty string.
\<close>

definition secondPiece :: "jsstring \<Rightarrow> jsstring \<Rightarrow> jsstring" where
  "secondPiece sep line =
     (case splitStr sep line of p0 # p1 # ps \<Rightarrow> trim p1 | _ \<Rightarrow> [])"

definition headerStep :: "jsstring \<times> jsstring \<Rightarrow> jsstring \<Rightarrow> jsstring \<times> jsstring" where
  "headerStep h line =
     (if line \<noteq> [] \<and> includesStr line (js ''URL:'') then (secondPiece (js ''URL:'') line, snd h)
      else if line \<noteq> [] \<and> includesStr line (js ''Title:'')
        then (fst h, secondPiece (js ''Title:'') line)
      else h)"

definition extractHeader :: "jsstring list \<Rightarrow> jsstring \<times> jsstring" where
  "extractHeader lines = foldl headerStep ([], []) (take 10 lines)"

definition banner :: jsstring where
  "banner = js ''Interactive Elements (use ref value without brackets for Playwright tools):''"

text \<open>The output array before the second loop.\<close>

definition initialOutput :: "jsstring \<times> jsstring \<Rightarrow> jsstring list" where
  "initialOutput h =
     (if fst h \<noteq> [] then [js ''URL: '' @ fst h] else [])
     @ (if snd h \<noteq> [] then [js ''Title: '' @ snd h] else [])
     @ [[], banner, []]"

text \<open>
  The second loop, with its three variables \<open>inSkipSection\<close>, \<open>skipDepth\<close> and
  \<open>output\<close>. Every \<open>continue\<close> is a call on the remaining lines. A line that
  passes the test of the skip section leaves \<open>inSkipSection\<close> false.
\<close>

fun filterLines :: "bool \<Rightarrow> nat \<Rightarrow> jsstring list \<Rightarrow> jsstring list \<Rightarrow> jsstring list" where
  "filterLines inSkipSection skipDepth output [] = output"
| "filterLines inSkipSection skipDepth output (line # rest) =
     (if trim line = [] then filterLines inSkipSection skipDepth output rest
      else if startsWith (trim line) (js ''URL:'') \<or> startsWith (trim line) (js ''Title:'')
              \<or> startsWith (trim line) (js ''Page Loaded:'')
        then filterLines inSkipSection skipDepth output rest
      else if list_ex (\<lambda>keyword. includesStr (toLowerCase (trim line)) keyword)
                SKIP_NAVIGATION_KEYWORDS
        then filterLines True (getIndentLevel line) output rest
      else if inSkipSection \<and> \<not> getIndentLevel line \<le> skipDepth
        then filterLines inSkipSection skipDepth output rest
      else (case parseYAMLLine (trim line) of
              None \<Rightarrow> filterLines False skipDepth output rest
            | Some element \<Rightarrow>
                if \<not> isInteractive element then filterLines False skipDepth output rest
                else (case formatElement element of
                        None \<Rightarrow> filterLines False skipDepth output rest
                      | Some formatted \<Rightarrow>
                          if formatted \<noteq> []
                          then filterLines False skipDepth (output @ [formatted]) rest
                          else filterLines False skipDepth output rest)))"

declare filterLines.simps(2) [simp del]

text \<open>The summary line counts the entries of the output that begin with a bracket.\<close>

definition summaryLine :: "jsstring list \<Rightarrow> jsstring" where
  "summaryLine output =
     js ''Total interactive elements: ''
       @ natToString (length (filter (\<lambda>l. startsWith l (js ''['')) output))"

definition trimLines :: "jsstring \<Rightarrow> jsstring list" where
  "trimLines yamlText =
     (let lines = splitStr [10] yamlText;
          output = filterLines False 0 (initialOutput (extractHeader lines)) lines @ [[]]
      in output @ [summaryLine output])"

definition trimYAMLSnapshot :: "jsstring \<Rightarrow> jsstring" where
  "trimYAMLSnapshot yamlText = joinStr [10] (trimLines yamlText)"

subsection \<open>trimSnapshot\<close>

text \<open>
  The argument has type \<open>any\<close>. The values are those of JSON, which is what the tool
  backend returns, and \<open>undefined\<close>. A finite number is an integer here and the
  entries of an object are kept in a list; the entry point reads no more of a number
  than whether it is zero, and of an object only its \<open>type\<close> and \<open>text\<close>.
\<close>

datatype jsval =
    Undefined
  | Null
  | Bool bool
  | Num int
  | NaN
  | Str jsstring
  | Arr "jsval list"
  | Obj "(jsstring \<times> jsval) list"

datatype jserror = TypeError

text \<open>What \<open>!v\<close> negates.\<close>

fun truthy :: "jsval \<Rightarrow> bool" where
  "truthy Undefined = False"
| "truthy Null = False"
| "truthy (Bool b) = b"
| "truthy (Num n) = (n \<noteq> 0)"
| "truthy NaN = False"
| "truthy (Str s) = (s \<noteq> [])"
| "truthy (Arr xs) = True"
| "truthy (Obj kvs) = True"

fun isArray :: "jsval \<Rightarrow> bool" where
  "isArray (Arr xs) = True"
| "isArray v = False"

text \<open>
  \<open>item.type\<close> and \<open>item.text\<close>: reading a property of \<open>null\<close> or
  \<open>undefined\<close> throws; an object gives the entry or \<open>undefined\<close>; arrays, strings,
  numbers and booleans have neither property.
\<close>

fun getProp :: "jsval \<Rightarrow> jsstring \<Rightarrow> jserror + jsval" where
  "getProp Undefined k = Inl TypeError"
| "getProp Null k = Inl TypeError"
| "getProp (Obj kvs) k = Inr (case map_of kvs k of Some v \<Rightarrow> v | None \<Rightarrow> Undefined)"
| "getProp v k = Inr Undefined"

text \<open>
  \<open>this.trimYAMLSnapshot(item.text)\<close> begins with \<open>yamlText.split\<close>, which only a
  string has: any other truthy value throws there.
\<close>

fun trimText :: "jsval \<Rightarrow> jserror + jsstring" where
  "trimText (Str s) = Inr (trimYAMLSnapshot s)"
| "trimText v = Inl TypeError"

definition textItem :: "jsstring \<Rightarrow> jsval" where
  "textItem t = Obj [(js ''type'', Str (js ''text'')), (js ''text'', Str t)]"

text \<open>
  The test \<open>item.type === 'text' && item.text\<close> of the loop: whether it is truthy, or
  the exception of reading \<open>item.type\<close>.
\<close>

definition textCondition :: "jsval \<Rightarrow> jserror + bool" where
  "textCondition item =
     (case getProp item (js ''type'') of
        Inl e \<Rightarrow> Inl e
      | Inr ty \<Rightarrow>
          if ty = Str (js ''text'') then
            (case getProp item (js ''text'') of Inl e \<Rightarrow> Inl e | Inr tx \<Rightarrow> Inr (truthy tx))
          else Inr False)"

text \<open>One round of the \<open>for\<close> loop: the item pushed, or the exception.\<close>

definition trimItem :: "jsval \<Rightarrow> jserror + jsval" where
  "trimItem item =
     (case textCondition item of
        Inl e \<Rightarrow> Inl e
      | Inr True \<Rightarrow>
          (case getProp item (js ''text'') of
             Inl e \<Rightarrow> Inl e
           | Inr tx \<Rightarrow>
               (case trimText tx of
                  Inl e \<Rightarrow> Inl e
                | Inr trimmedText \<Rightarrow> Inr (textItem trimmedText)))
      | Inr False \<Rightarrow> Inr item)"

fun trimLoop :: "jsval list \<Rightarrow> jsval list \<Rightarrow> jserror + jsval list" where
  "trimLoop trimmedContent [] = Inr trimmedContent"
| "trimLoop trimmedContent (item # rest) =
     (case trimItem item of
        Inl e \<Rightarrow> Inl e
      | Inr pushed \<Rightarrow> trimLoop (trimmedContent @ [pushed]) rest)"

definition trimSnapshot :: "jsval \<Rightarrow> jserror + jsval" where
  "trimSnapshot response =
     (if \<not> truthy response \<or> \<not> isArray response then Inr response
      else (case response of
              Arr items \<Rightarrow> (case trimLoop [] items of Inl e \<Rightarrow> Inl e | Inr out \<Rightarrow> Inr (Arr out))
            | _ \<Rightarrow> Inr response))"
section \<open>Properties of the tracker\<close>

text \<open>
  Literals are unfolded unit by unit where a proof has to look into them.
\<close>

lemma js_simps: "js [] = []" "js (c # cs) = of_char c # js cs"
  by (simp_all add: js_def)

lemma drive_runs_to_maxSteps:
  "\<not> shouldStop (state m) \<Longrightarrow> \<not> isDone (state m) \<Longrightarrow> currentStep (state m) \<le> maxSteps (state m)
   \<Longrightarrow> drive m = m\<lparr> state := (state m)\<lparr> currentStep := maxSteps (state m) \<rparr> \<rparr>"
proof (induction m rule: drive.induct)
  case (1 m)
  show ?case
  proof (cases "shouldContinue m")
    case True
    then have lt: "currentStep (state m) < maxSteps (state m)"
      by (simp add: shouldContinue_def split: if_splits)
    have "drive m = drive (nextStep m)" using True by (subst drive.simps) simp
    also have "\<dots> = (nextStep m)\<lparr> state := (state (nextStep m))\<lparr> currentStep := maxSteps (state (nextStep m)) \<rparr> \<rparr>"
      using "1.IH"[OF True] "1.prems" lt by (simp add: nextStep_def)
    also have "\<dots> = m\<lparr> state := (state m)\<lparr> currentStep := maxSteps (state m) \<rparr> \<rparr>"
      by (simp add: nextStep_def)
    finally show ?thesis .
  next
    case False
    then have "currentStep (state m) = maxSteps (state m)"
      using "1.prems" by (simp add: shouldContinue_def split: if_splits)
    then show ?thesis using False by (subst drive.simps) simp
  qed
qed

lemma recordFailure_count:
  "consecutiveFailures (state (apply_ops m (replicate k RecordFailure))) = consecutiveFailures (state m) + int k"
  unfolding apply_ops_def
  by (induction k arbitrary: m) (simp_all add: recordFailure_def Let_def)

lemma recordFailure_static:
  "maxConsecutiveFailures (apply_ops m (replicate k RecordFailure)) = maxConsecutiveFailures m
   \<and> isDone (state (apply_ops m (replicate k RecordFailure))) = isDone (state m)
   \<and> currentStep (state (apply_ops m (replicate k RecordFailure))) = currentStep (state m)
   \<and> maxSteps (state (apply_ops m (replicate k RecordFailure))) = maxSteps (state m)"
  unfolding apply_ops_def
  by (induction k arbitrary: m) (simp_all add: recordFailure_def Let_def)

lemma recordFailure_below_threshold:
  "\<not> shouldStop (state m) \<Longrightarrow> consecutiveFailures (state m) + int k < maxConsecutiveFailures m
   \<Longrightarrow> \<not> shouldStop (state (apply_ops m (replicate k RecordFailure)))"
  unfolding apply_ops_def
  by (induction k arbitrary: m) (simp_all add: recordFailure_def Let_def)

lemma recordFailure_reaches_threshold:
  "0 < k \<Longrightarrow> maxConsecutiveFailures m \<le> consecutiveFailures (state m) + int k
   \<Longrightarrow> shouldStop (state (apply_ops m (replicate k RecordFailure)))"
proof -
  assume k: "0 < k" and thr: "maxConsecutiveFailures m \<le> consecutiveFailures (state m) + int k"
  obtain j where j: "k = Suc j" using k by (cases k) auto
  let ?m' = "apply_ops m (replicate j RecordFailure)"
  have "replicate k RecordFailure = replicate j RecordFailure @ [RecordFailure]"
    unfolding j by (simp add: replicate_append_same)
  then have eq: "apply_ops m (replicate k RecordFailure) = recordFailure ?m'"
    by (simp add: apply_ops_def)
  have "consecutiveFailures (state ?m') + 1 \<ge> maxConsecutiveFailures ?m'"
    using thr j recordFailure_count[of m j] recordFailure_static[of m j] by simp
  then show ?thesis unfolding eq by (simp add: recordFailure_def Let_def)
qed

text \<open>
  Claim C2. In every tracker state and for every configured threshold, \<open>getExitReason\<close>
  answers by priority: \<open>isDone\<close> gives success; otherwise a failure count at or above
  the threshold gives max_failures; otherwise a step count at or above \<open>maxSteps\<close> gives
  max_steps; otherwise \<open>shouldStop\<close> gives error; otherwise success.
\<close>
theorem getExitReason_priority:
  "(isDone (state m) \<longrightarrow> getExitReason m = Success)
   \<and> (\<not> isDone (state m) \<and> consecutiveFailures (state m) \<ge> maxConsecutiveFailures m
        \<longrightarrow> getExitReason m = Max_failures)
   \<and> (\<not> isDone (state m) \<and> \<not> consecutiveFailures (state m) \<ge> maxConsecutiveFailures m
        \<and> currentStep (state m) \<ge> maxSteps (state m) \<longrightarrow> getExitReason m = Max_steps)
   \<and> (\<not> isDone (state m) \<and> \<not> consecutiveFailures (state m) \<ge> maxConsecutiveFailures m
        \<and> \<not> currentStep (state m) \<ge> maxSteps (state m) \<and> shouldStop (state m)
        \<longrightarrow> getExitReason m = Error)
   \<and> (\<not> isDone (state m) \<and> \<not> consecutiveFailures (state m) \<ge> maxConsecutiveFailures m
        \<and> \<not> currentStep (state m) \<ge> maxSteps (state m) \<and> \<not> shouldStop (state m)
        \<longrightarrow> getExitReason m = Success)"
  by (simp add: getExitReason_def)

theorem getExitReason_priority_witness:
  "getExitReason (markComplete (recordFailure (recordFailure (recordFailure fresh_bot)))) = Success
   \<and> getExitReason (markFailed (recordFailure (recordFailure (recordFailure fresh_bot)))) = Max_failures
   \<and> getExitReason (markFailed (drive fresh_bot)) = Max_steps
   \<and> getExitReason (markFailed fresh_bot) = Error
   \<and> getExitReason fresh_bot = Success"
proof -
  have d: "drive fresh_bot = fresh_bot\<lparr> state := (state fresh_bot)\<lparr> currentStep := maxSteps (state fresh_bot) \<rparr> \<rparr>"
    by (rule drive_runs_to_maxSteps) (simp_all add: fresh_bot_def new_StateManager_def)
  show ?thesis
    using getExitReason_priority[of "markComplete (recordFailure (recordFailure (recordFailure fresh_bot)))"]
      getExitReason_priority[of "markFailed (recordFailure (recordFailure (recordFailure fresh_bot)))"]
      getExitReason_priority[of "markFailed (drive fresh_bot)"]
      getExitReason_priority[of "markFailed fresh_bot"]
      getExitReason_priority[of fresh_bot]
    unfolding d
    by (simp add: fresh_bot_def new_StateManager_def markComplete_def markFailed_def recordFailure_def Let_def)
qed

text \<open>
  Driving without failures: the step count stays within the budget, no flag is set and
  the failure count stays 0, whatever the order of \<open>nextStep\<close> and
  \<open>recordSuccess\<close>; a tracker in such a state that may not continue has used its
  budget exactly. The loop of \<open>BrowserBot.run\<close>, with turns that all respond without
  a verdict, is one such driver.
\<close>

lemma apply_ops_Cons: "apply_ops m (op # ops) = apply_ops (apply_op m op) ops"
  by (simp add: apply_ops_def)

lemma drivenBy_invariant:
  assumes "drivenBy m ops"
    and "\<not> shouldStop (state m)" "\<not> isDone (state m)"
    and "currentStep (state m) \<le> maxSteps (state m)" "consecutiveFailures (state m) = 0"
  shows "\<not> shouldStop (state (apply_ops m ops)) \<and> \<not> isDone (state (apply_ops m ops))
       \<and> currentStep (state (apply_ops m ops)) \<le> maxSteps (state (apply_ops m ops))
       \<and> consecutiveFailures (state (apply_ops m ops)) = 0
       \<and> maxSteps (state (apply_ops m ops)) = maxSteps (state m)
       \<and> maxConsecutiveFailures (apply_ops m ops) = maxConsecutiveFailures m"
  using assms
proof (induction m ops rule: drivenBy.induct)
  case (1 m)
  then show ?case by (simp add: apply_ops_def)
next
  case (2 m ops)
  from "2.prems" have c: "shouldContinue m" and d: "drivenBy (nextStep m) ops" by simp_all
  from c have lt: "currentStep (state m) < maxSteps (state m)"
    by (simp add: shouldContinue_def split: if_splits)
  have "\<not> shouldStop (state (nextStep m))" "\<not> isDone (state (nextStep m))"
    "currentStep (state (nextStep m)) \<le> maxSteps (state (nextStep m))"
    "consecutiveFailures (state (nextStep m)) = 0"
    using "2.prems" lt by (simp_all add: nextStep_def)
  from "2.IH"[OF d this] show ?case by (simp add: apply_ops_Cons nextStep_def)
next
  case (3 m ops)
  from "3.prems" have d: "drivenBy (recordSuccess m) ops" by simp
  have "\<not> shouldStop (state (recordSuccess m))" "\<not> isDone (state (recordSuccess m))"
    "currentStep (state (recordSuccess m)) \<le> maxSteps (state (recordSuccess m))"
    "consecutiveFailures (state (recordSuccess m)) = 0"
    using "3.prems" by (simp_all add: recordSuccess_def)
  from "3.IH"[OF d this] show ?case by (simp add: apply_ops_Cons recordSuccess_def)
qed simp_all

lemma stopped_at_budget:
  assumes "\<not> shouldContinue m" "\<not> shouldStop (state m)" "\<not> isDone (state m)"
    and "currentStep (state m) \<le> maxSteps (state m)" "consecutiveFailures (state m) = 0"
    and "1 \<le> maxConsecutiveFailures m"
  shows "currentStep (state m) = maxSteps (state m) \<and> getExitReason m = Max_steps"
  using assms by (auto simp: shouldContinue_def getExitReason_def split: if_splits)

lemma run_loop_all_continue:
  assumes "\<forall>i. \<exists>r. turns i = Responds r \<and> \<not> isComplete (evaluateResponse r)
                        \<and> \<not> isFailed (evaluateResponse r)"
    and "\<not> shouldStop (state m)" "\<not> isDone (state m)"
    and "currentStep (state m) \<le> maxSteps (state m)"
  shows "run_loop turns f i m
     = m\<lparr> state := (state m)\<lparr> currentStep := maxSteps (state m),
           consecutiveFailures := (if currentStep (state m) < maxSteps (state m) then 0
                                    else consecutiveFailures (state m)) \<rparr> \<rparr>"
  using assms
proof (induction turns f i m rule: run_loop.induct)
  case (1 turns f i m)
  show ?case
  proof (cases "shouldContinue m")
    case False
    then have "currentStep (state m) = maxSteps (state m)"
      using "1.prems" by (simp add: shouldContinue_def split: if_splits)
    then show ?thesis using False by (subst run_loop.simps) simp
  next
    case True
    then have lt: "currentStep (state m) < maxSteps (state m)"
      by (simp add: shouldContinue_def split: if_splits)
    from "1.prems"(1) obtain r where r: "turns i = Responds r"
      "\<not> isComplete (evaluateResponse r)" "\<not> isFailed (evaluateResponse r)" by blast
    let ?m' = "recordSuccess (nextStep m)"
    have step: "run_loop turns f i m = run_loop turns f (Suc i) ?m'"
      using True r by (subst run_loop.simps) simp
    have p: "\<not> shouldStop (state ?m')" "\<not> isDone (state ?m')"
      "currentStep (state ?m') \<le> maxSteps (state ?m')"
      using "1.prems" lt by (simp_all add: recordSuccess_def nextStep_def)
    have "run_loop turns f (Suc i) ?m'
       = ?m'\<lparr> state := (state ?m')\<lparr> currentStep := maxSteps (state ?m'),
           consecutiveFailures := (if currentStep (state ?m') < maxSteps (state ?m') then 0
                                    else consecutiveFailures (state ?m')) \<rparr> \<rparr>"
      using "1.IH"(2)[OF True r(1) r(2) r(3) "1.prems"(1) p] .
    then show ?thesis unfolding step using lt
      by (simp add: recordSuccess_def nextStep_def)
  qed
qed

lemma still_working_continues:
  "\<not> isComplete (evaluateResponse (js ''still working''))
   \<and> \<not> isFailed (evaluateResponse (js ''still working''))"
  by (simp add: evaluateResponse_def parseResponse_def toLowerCase_def lowerUnit_def js_simps)

text \<open>
  Claim C3 says that for every \<open>maxSteps \<ge> 1\<close> a tracker on which only
  \<open>nextStep\<close> is called, as long as \<open>shouldContinue\<close> holds, stops with
  \<open>currentStep = maxSteps\<close> and exit reason max_steps. The step count is as claimed,
  but \<open>getExitReason\<close> tests the failure count against the threshold first: a tracker
  configured with the threshold 0 answers max_failures with no failure recorded.
\<close>

theorem drive_threshold_0_counterexample:
  "currentStep (state (drive (new_StateManager
       \<lparr> cfg_maxSteps = Some 1, cfg_maxConsecutiveFailures = Some 0 \<rparr>))) = 1
   \<and> getExitReason (drive (new_StateManager
       \<lparr> cfg_maxSteps = Some 1, cfg_maxConsecutiveFailures = Some 0 \<rparr>)) = Max_failures
   \<and> getExitReason (drive (new_StateManager
       \<lparr> cfg_maxSteps = Some 1, cfg_maxConsecutiveFailures = Some 0 \<rparr>)) \<noteq> Max_steps"
proof -
  let ?m = "new_StateManager \<lparr> cfg_maxSteps = Some 1, cfg_maxConsecutiveFailures = Some 0 \<rparr>"
  have "drive ?m = ?m\<lparr> state := (state ?m)\<lparr> currentStep := maxSteps (state ?m) \<rparr> \<rparr>"
    by (rule drive_runs_to_maxSteps) (simp_all add: new_StateManager_def)
  then show ?thesis by (simp add: new_StateManager_def getExitReason_def)
qed

text \<open>
  Claim C3, amended: for every \<open>maxSteps \<ge> 1\<close> and every failure threshold of at
  least 1 (the default 3, which \<open>BrowserBot.run\<close> uses, or a configured one), a
  newly built tracker on which \<open>markComplete\<close>, \<open>markFailed\<close> and
  \<open>recordFailure\<close> are never called and \<open>nextStep\<close> is called only while
  \<open>shouldContinue\<close> holds stops with \<open>currentStep = maxSteps\<close> and exit reason
  max_steps. This is stated for the bare loop \<open>drive\<close>, for every sequence of
  \<open>nextStep\<close> and \<open>recordSuccess\<close> calls (the step count never passes the
  budget, and where \<open>shouldContinue\<close> is false it equals it), and for the loop of
  \<open>BrowserBot.run\<close> when every turn responds without a verdict.
\<close>

theorem drive_stops_at_maxSteps:
  assumes "1 \<le> n" and "thr = None \<or> (\<exists>t. thr = Some t \<and> 1 \<le> t)"
    and "m0 = new_StateManager \<lparr> cfg_maxSteps = Some n, cfg_maxConsecutiveFailures = thr \<rparr>"
  shows "(currentStep (state (drive m0)) = n \<and> getExitReason (drive m0) = Max_steps
          \<and> \<not> shouldContinue (drive m0))
       \<and> (drivenBy m0 ops \<longrightarrow>
            currentStep (state (apply_ops m0 ops)) \<le> n
            \<and> (\<not> shouldContinue (apply_ops m0 ops) \<longrightarrow>
                  currentStep (state (apply_ops m0 ops)) = n
                  \<and> getExitReason (apply_ops m0 ops) = Max_steps))
       \<and> ((\<forall>i. \<exists>r. turns i = Responds r \<and> \<not> isComplete (evaluateResponse r)
                        \<and> \<not> isFailed (evaluateResponse r)) \<longrightarrow>
            currentStep (state (run_loop turns f 0 m0)) = n
            \<and> getExitReason (run_loop turns f 0 m0) = Max_steps
            \<and> \<not> shouldContinue (run_loop turns f 0 m0))"
proof (intro conjI impI)
  have init: "\<not> shouldStop (state m0)" "\<not> isDone (state m0)"
    "currentStep (state m0) \<le> maxSteps (state m0)" "consecutiveFailures (state m0) = 0"
    "maxSteps (state m0) = n" "1 \<le> maxConsecutiveFailures m0" "currentStep (state m0) < n"
    using assms by (auto simp: new_StateManager_def)
  have d: "drive m0 = m0\<lparr> state := (state m0)\<lparr> currentStep := maxSteps (state m0) \<rparr> \<rparr>"
    using init(1-3) by (rule drive_runs_to_maxSteps)
  show "currentStep (state (drive m0)) = n" unfolding d using init by simp
  show "getExitReason (drive m0) = Max_steps" unfolding d using init
    by (simp add: getExitReason_def)
  show "\<not> shouldContinue (drive m0)" unfolding d using init
    by (simp add: shouldContinue_def)
  {
    assume dr: "drivenBy m0 ops"
    note inv = drivenBy_invariant[OF dr init(1-4)]
    show "currentStep (state (apply_ops m0 ops)) \<le> n" using inv init(5) by simp
    assume st: "\<not> shouldContinue (apply_ops m0 ops)"
    have "currentStep (state (apply_ops m0 ops)) = maxSteps (state (apply_ops m0 ops))
        \<and> getExitReason (apply_ops m0 ops) = Max_steps"
      using st inv init(6) by (intro stopped_at_budget) simp_all
    then show "currentStep (state (apply_ops m0 ops)) = n"
      "getExitReason (apply_ops m0 ops) = Max_steps"
      using inv init(5) by simp_all
  }
  {
    assume t: "\<forall>i. \<exists>r. turns i = Responds r \<and> \<not> isComplete (evaluateResponse r)
                        \<and> \<not> isFailed (evaluateResponse r)"
    have r: "run_loop turns f 0 m0
       = m0\<lparr> state := (state m0)\<lparr> currentStep := maxSteps (state m0),
           consecutiveFailures := (if currentStep (state m0) < maxSteps (state m0) then 0
                                    else consecutiveFailures (state m0)) \<rparr> \<rparr>"
      using t init(1-3) by (rule run_loop_all_continue)
    show "currentStep (state (run_loop turns f 0 m0)) = n" unfolding r using init by simp
    show "getExitReason (run_loop turns f 0 m0) = Max_steps" unfolding r using init
      by (simp add: getExitReason_def)
    show "\<not> shouldContinue (run_loop turns f 0 m0)" unfolding r using init
      by (simp add: shouldContinue_def)
  }
qed

text \<open>
  Claim C3, amended, at \<open>maxSteps = 2\<close> with the default threshold: the bare loop,
  the calls \<open>nextStep, recordSuccess, nextStep, recordSuccess\<close>, and the loop of
  \<open>BrowserBot.run\<close> with turns that answer \<open>still working\<close>.
\<close>

theorem drive_stops_at_maxSteps_witness:
  "currentStep (state (drive (new_StateManager
        \<lparr> cfg_maxSteps = Some 2, cfg_maxConsecutiveFailures = None \<rparr>))) = 2
   \<and> getExitReason (drive (new_StateManager
        \<lparr> cfg_maxSteps = Some 2, cfg_maxConsecutiveFailures = None \<rparr>)) = Max_steps
   \<and> drivenBy (new_StateManager \<lparr> cfg_maxSteps = Some 2, cfg_maxConsecutiveFailures = None \<rparr>)
        [NextStep, RecordSuccess, NextStep, RecordSuccess]
   \<and> \<not> shouldContinue (apply_ops (new_StateManager
        \<lparr> cfg_maxSteps = Some 2, cfg_maxConsecutiveFailures = None \<rparr>)
        [NextStep, RecordSuccess, NextStep, RecordSuccess])
   \<and> currentStep (state (apply_ops (new_StateManager
        \<lparr> cfg_maxSteps = Some 2, cfg_maxConsecutiveFailures = None \<rparr>)
        [NextStep, RecordSuccess, NextStep, RecordSuccess])) = 2
   \<and> getExitReason (apply_ops (new_StateManager
        \<lparr> cfg_maxSteps = Some 2, cfg_maxConsecutiveFailures = None \<rparr>)
        [NextStep, RecordSuccess, NextStep, RecordSuccess]) = Max_steps
   \<and> currentStep (state (run_loop (\<lambda>i. Responds (js ''still working'')) 3 0
        (new_StateManager \<lparr> cfg_maxSteps = Some 2, cfg_maxConsecutiveFailures = None \<rparr>))) = 2
   \<and> getExitReason (run_loop (\<lambda>i. Responds (js ''still working'')) 3 0
        (new_StateManager \<lparr> cfg_maxSteps = Some 2, cfg_maxConsecutiveFailures = None \<rparr>))
       = Max_steps"
proof -
  let ?m = "new_StateManager \<lparr> cfg_maxSteps = Some 2, cfg_maxConsecutiveFailures = None \<rparr>"
  let ?ops = "[NextStep, RecordSuccess, NextStep, RecordSuccess]"
  have h1: "(1::int) \<le> 2" by simp
  have h2: "(None::int option) = None \<or> (\<exists>t. (None::int option) = Some t \<and> 1 \<le> t)" by simp
  have h3: "drivenBy ?m ?ops"
    by (simp add: new_StateManager_def shouldContinue_def nextStep_def recordSuccess_def)
  have h4: "\<not> shouldContinue (apply_ops ?m ?ops)"
    by (simp add: apply_ops_def new_StateManager_def shouldContinue_def nextStep_def
          recordSuccess_def)
  have h5: "\<forall>i. \<exists>r. (\<lambda>i. Responds (js ''still working'')) i = Responds r
                \<and> \<not> isComplete (evaluateResponse r) \<and> \<not> isFailed (evaluateResponse r)"
    using still_working_continues by simp
  from drive_stops_at_maxSteps[OF h1 h2 refl, of ?ops "\<lambda>i. Responds (js ''still working'')" 3]
    h3 h4 h5
  show ?thesis by blast
qed

text \<open>
  Claim C4. Each of \<open>nextStep\<close>, \<open>recordSuccess\<close>, \<open>recordFailure\<close>,
  \<open>markComplete\<close> and \<open>markFailed\<close> keeps the three invariants: a \<open>shouldStop\<close>
  that is set stays set, \<open>isDone\<close> implies \<open>shouldStop\<close>, and \<open>currentStep\<close>
  does not decrease.
\<close>
theorem tracker_ops_preserve_invariants:
  "(shouldStop (state m) \<longrightarrow> shouldStop (state (apply_op m op)))
   \<and> ((isDone (state m) \<longrightarrow> shouldStop (state m))
        \<longrightarrow> (isDone (state (apply_op m op)) \<longrightarrow> shouldStop (state (apply_op m op))))
   \<and> currentStep (state m) \<le> currentStep (state (apply_op m op))"
  by (cases op) (simp_all add: nextStep_def recordSuccess_def recordFailure_def
        markComplete_def markFailed_def Let_def)

theorem tracker_ops_preserve_invariants_witness:
  "shouldStop (state (markComplete fresh_bot))
   \<and> shouldStop (state (apply_op (markComplete fresh_bot) NextStep))
   \<and> isDone (state (apply_op (markComplete fresh_bot) NextStep))
   \<and> currentStep (state (markComplete fresh_bot)) \<le> currentStep (state (apply_op (markComplete fresh_bot) NextStep))
   \<and> currentStep (state (apply_op (markComplete fresh_bot) NextStep)) = 1"
  using tracker_ops_preserve_invariants[of "markComplete fresh_bot" NextStep]
  by (simp add: fresh_bot_def new_StateManager_def markComplete_def nextStep_def)

text \<open>
  Claim C5. For every threshold \<open>t \<ge> 1\<close>, on a tracker newly built with it:
  \<open>t\<close> calls of \<open>recordFailure\<close> in a row set \<open>shouldStop\<close> and make the exit
  reason max_failures; \<open>recordSuccess\<close> resets the count to 0; and during \<open>t - 1\<close>
  failures, one success and \<open>t - 1\<close> more failures, \<open>shouldStop\<close> is never set
  (it is unset after every prefix of that sequence of calls).
\<close>
theorem failure_threshold:
  assumes "1 \<le> t"
  shows "shouldStop (state (apply_ops (new_StateManager \<lparr> cfg_maxSteps = ms, cfg_maxConsecutiveFailures = Some (int t) \<rparr>)
            (replicate t RecordFailure)))
    \<and> getExitReason (apply_ops (new_StateManager \<lparr> cfg_maxSteps = ms, cfg_maxConsecutiveFailures = Some (int t) \<rparr>)
            (replicate t RecordFailure)) = Max_failures
    \<and> consecutiveFailures (state (recordSuccess m)) = 0
    \<and> (\<forall>k \<le> 2 * (t - 1) + 1.
          \<not> shouldStop (state (apply_ops (new_StateManager \<lparr> cfg_maxSteps = ms, cfg_maxConsecutiveFailures = Some (int t) \<rparr>)
            (take k (replicate (t - 1) RecordFailure @ [RecordSuccess] @ replicate (t - 1) RecordFailure)))))"
proof -
  let ?m = "new_StateManager \<lparr> cfg_maxSteps = ms, cfg_maxConsecutiveFailures = Some (int t) \<rparr>"
  have m0: "consecutiveFailures (state ?m) = 0" "maxConsecutiveFailures ?m = int t"
    "\<not> shouldStop (state ?m)" "\<not> isDone (state ?m)"
    by (simp_all add: new_StateManager_def)
  have stop: "shouldStop (state (apply_ops ?m (replicate t RecordFailure)))"
    using assms m0 by (intro recordFailure_reaches_threshold) simp_all
  have reason: "getExitReason (apply_ops ?m (replicate t RecordFailure)) = Max_failures"
    using recordFailure_count[of ?m t] recordFailure_static[of ?m t] m0
    by (simp add: getExitReason_def)
  have reset: "consecutiveFailures (state (recordSuccess m)) = 0"
    by (simp add: recordSuccess_def)
  have never: "\<not> shouldStop (state (apply_ops ?m
      (take k (replicate (t - 1) RecordFailure @ [RecordSuccess] @ replicate (t - 1) RecordFailure))))"
    (is "\<not> shouldStop (state (apply_ops ?m (take k ?ops)))") for k
  proof (cases "k \<le> t - 1")
    case True
    then have "take k ?ops = replicate k RecordFailure" by simp
    moreover have "\<not> shouldStop (state (apply_ops ?m (replicate k RecordFailure)))"
      using True assms m0 by (intro recordFailure_below_threshold) simp_all
    ultimately show ?thesis by simp
  next
    case False
    define j where "j = min (k - t) (t - 1)"
    let ?m1 = "recordSuccess (apply_ops ?m (replicate (t - 1) RecordFailure))"
    have tk: "take k ?ops = replicate (t - 1) RecordFailure @ [RecordSuccess] @ replicate j RecordFailure"
      using False assms by (auto simp: j_def min_def Suc_diff_le)
    have a: "\<not> shouldStop (state (apply_ops ?m (replicate (t - 1) RecordFailure)))"
      using assms m0 by (intro recordFailure_below_threshold) simp_all
    have m1: "\<not> shouldStop (state ?m1)" "consecutiveFailures (state ?m1) = 0"
      "maxConsecutiveFailures ?m1 = int t"
      using a recordFailure_static[of ?m "t - 1"] m0 by (simp_all add: recordSuccess_def)
    have "j \<le> t - 1" by (simp add: j_def)
    then have "\<not> shouldStop (state (apply_ops ?m1 (replicate j RecordFailure)))"
      using m1 assms by (intro recordFailure_below_threshold) simp_all
    then show ?thesis unfolding tk by (simp add: apply_ops_def)
  qed
  show ?thesis using stop reason reset never by blast
qed

theorem failure_threshold_witness:
  "shouldStop (state (apply_ops (new_StateManager \<lparr> cfg_maxSteps = None, cfg_maxConsecutiveFailures = Some 2 \<rparr>)
            [RecordFailure, RecordFailure]))
    \<and> getExitReason (apply_ops (new_StateManager \<lparr> cfg_maxSteps = None, cfg_maxConsecutiveFailures = Some 2 \<rparr>)
            [RecordFailure, RecordFailure]) = Max_failures
    \<and> \<not> shouldStop (state (apply_ops (new_StateManager \<lparr> cfg_maxSteps = None, cfg_maxConsecutiveFailures = Some 2 \<rparr>)
            [RecordFailure, RecordSuccess, RecordFailure]))"
proof -
  have r: "replicate 2 RecordFailure = [RecordFailure, RecordFailure]"
    by (simp add: numeral_2_eq_2)
  have "(1::nat) \<le> 2" by simp
  from failure_threshold[OF this, of None fresh_bot]
  have a: "shouldStop (state (apply_ops (new_StateManager \<lparr> cfg_maxSteps = None, cfg_maxConsecutiveFailures = Some 2 \<rparr>)
            [RecordFailure, RecordFailure]))"
    and b: "getExitReason (apply_ops (new_StateManager \<lparr> cfg_maxSteps = None, cfg_maxConsecutiveFailures = Some 2 \<rparr>)
            [RecordFailure, RecordFailure]) = Max_failures"
    and c: "\<forall>k \<le> 3. \<not> shouldStop (state (apply_ops (new_StateManager \<lparr> cfg_maxSteps = None, cfg_maxConsecutiveFailures = Some 2 \<rparr>)
            (take k [RecordFailure, RecordSuccess, RecordFailure])))"
    unfolding r by simp_all
  from c have "\<not> shouldStop (state (apply_ops (new_StateManager \<lparr> cfg_maxSteps = None, cfg_maxConsecutiveFailures = Some 2 \<rparr>)
            (take 3 [RecordFailure, RecordSuccess, RecordFailure])))"
    by blast
  with a b show ?thesis by simp
qed

text \<open>
  Claim C6 says that \<open>isLastStep\<close> holds if and only if
  \<open>currentStep = maxSteps - 1\<close>. The code compares with \<open>\<ge>\<close>: after the one
  \<open>nextStep\<close> of a tracker with \<open>maxSteps = 1\<close> the step count is 1, not 0, and
  \<open>isLastStep\<close> holds.
\<close>
theorem isLastStep_counterexample:
  "isLastStep (nextStep (new_StateManager \<lparr> cfg_maxSteps = Some 1, cfg_maxConsecutiveFailures = None \<rparr>))
   \<and> currentStep (state (nextStep (new_StateManager \<lparr> cfg_maxSteps = Some 1, cfg_maxConsecutiveFailures = None \<rparr>)))
      \<noteq> maxSteps (state (nextStep (new_StateManager \<lparr> cfg_maxSteps = Some 1, cfg_maxConsecutiveFailures = None \<rparr>))) - 1"
  by (simp add: isLastStep_def nextStep_def new_StateManager_def)

text \<open>
  Claim C6, amended: \<open>isLastStep\<close> holds if and only if \<open>currentStep\<close> is
  \<open>maxSteps - 1\<close> or is at least \<open>maxSteps\<close>, that is,
  \<open>currentStep \<ge> maxSteps - 1\<close>.
\<close>

theorem isLastStep_iff:
  "isLastStep m \<longleftrightarrow>
     currentStep (state m) = maxSteps (state m) - 1 \<or> currentStep (state m) \<ge> maxSteps (state m)"
  by (auto simp: isLastStep_def)

lemma run_loop_two_failures:
  assumes "turns 0 = Raises" "turns 1 = Raises"
    and "currentStep (state m) = 0" "consecutiveFailures (state m) = 0"
    and "\<not> shouldStop (state m)" "\<not> isDone (state m)" "2 \<le> maxSteps (state m)"
    and "3 \<le> maxConsecutiveFailures m"
  shows "run_loop turns 2 0 m
     = m\<lparr> state := (state m)\<lparr> currentStep := 2, consecutiveFailures := 2 \<rparr> \<rparr>"
proof -
  let ?m1 = "recordFailure (nextStep m)"
  have m1: "?m1 = m\<lparr> state := (state m)\<lparr> currentStep := 1, consecutiveFailures := 1 \<rparr> \<rparr>"
    using assms by (simp add: recordFailure_def nextStep_def Let_def)
  have c0: "shouldContinue m" using assms by (simp add: shouldContinue_def)
  have c1: "shouldContinue ?m1" using assms unfolding m1 by (simp add: shouldContinue_def)
  have s1: "run_loop turns 2 0 m = run_loop turns 2 (Suc 0) ?m1"
    using c0 assms(1) by (subst run_loop.simps) (simp add: m1 getConsecutiveFailures_def)
  have m2: "recordFailure (nextStep ?m1)
      = m\<lparr> state := (state m)\<lparr> currentStep := 2, consecutiveFailures := 2 \<rparr> \<rparr>"
    unfolding m1 using assms by (simp add: recordFailure_def nextStep_def Let_def)
  have s2: "run_loop turns 2 (Suc 0) ?m1 = recordFailure (nextStep ?m1)"
    using c1 assms(2)
    by (subst run_loop.simps) (simp add: m2 getConsecutiveFailures_def)
  show ?thesis by (simp only: s1 s2 m2)
qed

text \<open>
  Claim C1. A run with \<open>maxFailures = 2\<close> whose first two turns raise: the loop
  leaves after the second turn, since the count 2 reaches \<open>options.maxFailures\<close>; but
  the tracker was built without that option and holds the default threshold 3, so
  \<open>getExitReason\<close> passes the failure test and, below the step budget, falls through
  to its default.
\<close>
theorem run_maxFailures_2_two_failures:
  "run fresh_bot \<lparr> opt_maxSteps = None, opt_maxFailures = Some 2 \<rparr> (\<lambda>i. Raises)
     = \<lparr> success = False, message = js ''Task completed successfully'',
         stepsTaken = 2, exitReason = Success \<rparr>"
proof -
  have "run_loop (\<lambda>i. Raises) 2 0 fresh_bot
      = fresh_bot\<lparr> state := (state fresh_bot)\<lparr> currentStep := 2, consecutiveFailures := 2 \<rparr> \<rparr>"
    by (rule run_loop_two_failures) (simp_all add: fresh_bot_def new_StateManager_def)
  then show ?thesis
    by (simp add: run_def buildResult_def getExitReason_def getState_def fresh_bot_def
          new_StateManager_def)
qed

text \<open>
  The same for every run whose first two turns raise, with no step budget given or one
  of at least 2: two steps are taken, the run is no success, and the exit reason is
  max_steps when the budget is exactly 2 and success otherwise; it is never max_failures.
\<close>

lemma run_two_failures_exitReason:
  assumes "turns 0 = Raises" "turns 1 = Raises"
    and "ms = None \<or> (\<exists>n. ms = Some n \<and> 2 \<le> n)"
  shows "stepsTaken (run fresh_bot \<lparr> opt_maxSteps = ms, opt_maxFailures = Some 2 \<rparr> turns) = 2"
    and "\<not> success (run fresh_bot \<lparr> opt_maxSteps = ms, opt_maxFailures = Some 2 \<rparr> turns)"
    and "exitReason (run fresh_bot \<lparr> opt_maxSteps = ms, opt_maxFailures = Some 2 \<rparr> turns)
           = (if ms = Some 2 then Max_steps else Success)"
proof -
  let ?m = "case ms of None \<Rightarrow> fresh_bot
     | Some n \<Rightarrow> if n = 0 then fresh_bot
                else new_StateManager \<lparr> cfg_maxSteps = Some n, cfg_maxConsecutiveFailures = None \<rparr>"
  have "run_loop turns 2 0 ?m
      = ?m\<lparr> state := (state ?m)\<lparr> currentStep := 2, consecutiveFailures := 2 \<rparr> \<rparr>"
    using assms
    by (intro run_loop_two_failures) (auto simp: fresh_bot_def new_StateManager_def)
  then have r: "run fresh_bot \<lparr> opt_maxSteps = ms, opt_maxFailures = Some 2 \<rparr> turns
      = buildResult (?m\<lparr> state := (state ?m)\<lparr> currentStep := 2, consecutiveFailures := 2 \<rparr> \<rparr>)"
    by (simp add: run_def)
  show "stepsTaken (run fresh_bot \<lparr> opt_maxSteps = ms, opt_maxFailures = Some 2 \<rparr> turns) = 2"
    unfolding r by (simp add: buildResult_def getState_def)
  show "\<not> success (run fresh_bot \<lparr> opt_maxSteps = ms, opt_maxFailures = Some 2 \<rparr> turns)"
    unfolding r using assms(3)
    by (auto simp: buildResult_def getState_def fresh_bot_def new_StateManager_def)
  show "exitReason (run fresh_bot \<lparr> opt_maxSteps = ms, opt_maxFailures = Some 2 \<rparr> turns)
           = (if ms = Some 2 then Max_steps else Success)"
    unfolding r using assms(3)
    by (auto simp: buildResult_def getExitReason_def fresh_bot_def new_StateManager_def)
qed

text \<open>One failing turn of the loop.\<close>

lemma run_loop_Raises:
  "shouldContinue m \<Longrightarrow> turns i = Raises \<Longrightarrow>
   run_loop turns f i m =
     (if getConsecutiveFailures (recordFailure (nextStep m)) \<ge> f then recordFailure (nextStep m)
      else run_loop turns f (Suc i) (recordFailure (nextStep m)))"
  by (subst run_loop.simps) simp

text \<open>
  The sibling path: with no \<open>maxFailures\<close> given, the loop and the tracker agree on
  the threshold 3, and three failing turns end the run with max_failures.
\<close>

lemma run_default_three_failures:
  "run fresh_bot \<lparr> opt_maxSteps = None, opt_maxFailures = None \<rparr> (\<lambda>i. Raises)
     = \<lparr> success = False, message = js ''Task stopped: '' @ js ''max_failures'',
         stepsTaken = 3, exitReason = Max_failures \<rparr>"
proof -
  define m1 where "m1 = recordFailure (nextStep fresh_bot)"
  define m2 where "m2 = recordFailure (nextStep m1)"
  define m3 where "m3 = recordFailure (nextStep m2)"
  have e1: "m1 = fresh_bot\<lparr> state := (state fresh_bot)\<lparr> currentStep := 1, consecutiveFailures := 1 \<rparr> \<rparr>"
    by (simp add: m1_def fresh_bot_def new_StateManager_def recordFailure_def nextStep_def Let_def)
  have e2: "m2 = fresh_bot\<lparr> state := (state fresh_bot)\<lparr> currentStep := 2, consecutiveFailures := 2 \<rparr> \<rparr>"
    by (simp add: m2_def e1 fresh_bot_def new_StateManager_def recordFailure_def nextStep_def Let_def)
  have e3: "m3 = fresh_bot\<lparr> state := (state fresh_bot)\<lparr> currentStep := 3, consecutiveFailures := 3,
                                               shouldStop := True \<rparr> \<rparr>"
    by (simp add: m3_def e2 fresh_bot_def new_StateManager_def recordFailure_def nextStep_def Let_def)
  have s1: "run_loop (\<lambda>i. Raises) 3 0 fresh_bot = run_loop (\<lambda>i. Raises) 3 (Suc 0) m1"
    using run_loop_Raises[of fresh_bot "\<lambda>i. Raises" 0 3]
    unfolding m1_def[symmetric]
    by (simp add: e1 getConsecutiveFailures_def shouldContinue_def fresh_bot_def new_StateManager_def)
  have s2: "run_loop (\<lambda>i. Raises) 3 (Suc 0) m1 = run_loop (\<lambda>i. Raises) 3 (Suc (Suc 0)) m2"
    using run_loop_Raises[of m1 "\<lambda>i. Raises" "Suc 0" 3]
    unfolding m2_def[symmetric]
    by (simp add: e1 e2 getConsecutiveFailures_def shouldContinue_def fresh_bot_def new_StateManager_def)
  have s3: "run_loop (\<lambda>i. Raises) 3 (Suc (Suc 0)) m2 = m3"
    using run_loop_Raises[of m2 "\<lambda>i. Raises" "Suc (Suc 0)" 3]
    unfolding m3_def[symmetric]
    by (simp add: e2 e3 getConsecutiveFailures_def shouldContinue_def fresh_bot_def new_StateManager_def)
  have "run_loop (\<lambda>i. Raises) 3 0 fresh_bot = m3" by (simp only: s1 s2 s3)
  then show ?thesis
    by (simp add: run_def buildResult_def getExitReason_def getState_def e3 fresh_bot_def
          new_StateManager_def exitReasonText_def)
qed
text \<open>
  The whole of \<open>BrowserBot.run\<close> with a step budget of at least 1 and turns that all
  respond without a verdict: the budget is used up, and the result says so.
\<close>

lemma run_all_continue:
  assumes "1 \<le> n"
    and "\<forall>i. \<exists>r. turns i = Responds r \<and> \<not> isComplete (evaluateResponse r)
                        \<and> \<not> isFailed (evaluateResponse r)"
  shows "run m \<lparr> opt_maxSteps = Some n, opt_maxFailures = mf \<rparr> turns
     = \<lparr> success = False, message = js ''Task stopped: '' @ js ''max_steps'',
         stepsTaken = n, exitReason = Max_steps \<rparr>"
proof -
  let ?m0 = "new_StateManager \<lparr> cfg_maxSteps = Some n, cfg_maxConsecutiveFailures = None \<rparr>"
  let ?f = "case mf of None \<Rightarrow> 3 | Some f \<Rightarrow> f"
  have init: "\<not> shouldStop (state ?m0)" "\<not> isDone (state ?m0)"
    "currentStep (state ?m0) \<le> maxSteps (state ?m0)"
    using assms(1) by (simp_all add: new_StateManager_def)
  have r: "run_loop turns ?f 0 ?m0
       = ?m0\<lparr> state := (state ?m0)\<lparr> currentStep := maxSteps (state ?m0),
           consecutiveFailures := (if currentStep (state ?m0) < maxSteps (state ?m0) then 0
                                    else consecutiveFailures (state ?m0)) \<rparr> \<rparr>"
    using assms(2) init by (rule run_loop_all_continue)
  have "run m \<lparr> opt_maxSteps = Some n, opt_maxFailures = mf \<rparr> turns
      = buildResult (run_loop turns ?f 0 ?m0)"
    using assms(1) by (simp add: run_def)
  then show ?thesis unfolding r using assms(1)
    by (simp add: buildResult_def getExitReason_def getState_def new_StateManager_def
          exitReasonText_def)
qed

section \<open>Properties of the string operations\<close>

text \<open>
  \<open>startsWith\<close> and \<open>includes\<close> are the prefix and the contiguous-sublist
  relations of the library.
\<close>

lemma startsWith_prefix: "startsWith s p \<longleftrightarrow> prefix p s"
  by (induction s p rule: startsWith.induct) auto

lemma includesStr_sublist: "includesStr s p \<longleftrightarrow> sublist p s"
  by (induction s) (auto simp: startsWith_prefix sublist_Cons_right)

text \<open>
  \<open>split\<close>: the pieces are parts of the string, they hold no occurrence of the
  separator, and a string without an occurrence is its own single piece.
\<close>

lemma splitStr_not_Nil: "splitStr sep s \<noteq> []"
  by (induction sep s rule: splitStr.induct) (auto split: list.splits)

lemma splitStr_pieces_subset:
  "p \<in> set (splitStr sep s) \<Longrightarrow> set p \<subseteq> set s"
proof (induction sep s arbitrary: p rule: splitStr.induct)
  case (1 sep)
  then show ?case by simp
next
  case (2 sep c s)
  show ?case
  proof (cases "startsWith (c # s) sep")
    case True
    with 2 have "p = [] \<or> p \<in> set (splitStr sep (drop (length sep - 1) s))" by simp
    then show ?thesis
    proof
      assume "p = []" then show ?thesis by simp
    next
      assume "p \<in> set (splitStr sep (drop (length sep - 1) s))"
      then have "set p \<subseteq> set (drop (length sep - 1) s)" using "2.IH"(1) True by blast
      then show ?thesis using set_drop_subset[of "length sep - 1" s] by auto
    qed
  next
    case False
    obtain q qs where q: "splitStr sep s = q # qs"
      using splitStr_not_Nil[of sep s] by (cases "splitStr sep s") auto
    with 2 False have "p = c # q \<or> p \<in> set qs" by simp
    moreover have "set q \<subseteq> set s" using "2.IH"(2)[OF False, of q] q by simp
    moreover have "p \<in> set qs \<Longrightarrow> set p \<subseteq> set s" using "2.IH"(2)[OF False, of p] q by simp
    ultimately show ?thesis by auto
  qed
qed

lemma splitStr_hd_prefix: "prefix (hd (splitStr sep s)) s"
proof (induction sep s rule: splitStr.induct)
  case (1 sep)
  then show ?case by simp
next
  case (2 sep c s)
  show ?case
  proof (cases "startsWith (c # s) sep")
    case True
    then show ?thesis by simp
  next
    case False
    then show ?thesis using "2.IH"(2)[OF False] splitStr_not_Nil[of sep s]
      by (cases "splitStr sep s") auto
  qed
qed

lemma splitStr_piece_sublist: "p \<in> set (splitStr sep s) \<Longrightarrow> sublist p s"
proof (induction sep s arbitrary: p rule: splitStr.induct)
  case (1 sep)
  then show ?case by simp
next
  case (2 sep c s)
  show ?case
  proof (cases "startsWith (c # s) sep")
    case True
    with "2.prems" have "p = [] \<or> p \<in> set (splitStr sep (drop (length sep - 1) s))" by simp
    then show ?thesis
    proof
      assume "p = []" then show ?thesis by simp
    next
      assume "p \<in> set (splitStr sep (drop (length sep - 1) s))"
      then have "sublist p (drop (length sep - 1) s)" using "2.IH"(1)[OF True] by blast
      moreover have "sublist (drop (length sep - 1) s) (c # s)"
        using sublist_drop[of "length sep - 1" s] by (simp add: sublist_Cons_right)
      ultimately show ?thesis using sublist_order.order_trans by blast
    qed
  next
    case False
    obtain q qs where q: "splitStr sep s = q # qs"
      using splitStr_not_Nil[of sep s] by (cases "splitStr sep s") auto
    with "2.prems" False have "p = c # q \<or> p \<in> set qs" by simp
    then show ?thesis
    proof
      assume "p = c # q"
      moreover have "prefix q s" using splitStr_hd_prefix[of sep s] q by simp
      ultimately show ?thesis by (simp add: sublist_Cons_right)
    next
      assume "p \<in> set qs"
      then have "sublist p s" using "2.IH"(2)[OF False, of p] q by simp
      then show ?thesis by (simp add: sublist_Cons_right)
    qed
  qed
qed

lemma splitStr_piece_no_occurrence:
  "sep \<noteq> [] \<Longrightarrow> p \<in> set (splitStr sep s) \<Longrightarrow> \<not> sublist sep p"
proof (induction sep s arbitrary: p rule: splitStr.induct)
  case (1 sep)
  then show ?case by simp
next
  case (2 sep c s)
  show ?case
  proof (cases "startsWith (c # s) sep")
    case True
    with "2.prems" have "p = [] \<or> p \<in> set (splitStr sep (drop (length sep - 1) s))" by simp
    then show ?thesis using "2.IH"(1)[OF True] "2.prems"(1) by auto
  next
    case False
    obtain q qs where q: "splitStr sep s = q # qs"
      using splitStr_not_Nil[of sep s] by (cases "splitStr sep s") auto
    with "2.prems" False have "p = c # q \<or> p \<in> set qs" by simp
    then show ?thesis
    proof
      assume p: "p = c # q"
      have pq: "prefix (c # q) (c # s)" using splitStr_hd_prefix[of sep s] q by simp
      have "\<not> prefix sep (c # q)"
      proof
        assume "prefix sep (c # q)"
        then have "prefix sep (c # s)" using pq prefix_order.order_trans by blast
        then show False using False by (simp add: startsWith_prefix)
      qed
      moreover have "\<not> sublist sep q" using "2.IH"(2)[OF False "2.prems"(1), of q] q by simp
      ultimately show ?thesis unfolding p by (simp add: sublist_Cons_right)
    next
      assume "p \<in> set qs"
      then show ?thesis using "2.IH"(2)[OF False "2.prems"(1), of p] q by simp
    qed
  qed
qed

lemma splitStr_no_occurrence: "\<not> sublist sep s \<Longrightarrow> splitStr sep s = [s]"
proof (induction s)
  case Nil
  then show ?case by simp
next
  case (Cons c s)
  then have "\<not> startsWith (c # s) sep" "\<not> sublist sep s"
    by (auto simp: startsWith_prefix sublist_Cons_right)
  then show ?case using Cons.IH by simp
qed

lemma splitStr_no_sep: "c \<notin> set s \<Longrightarrow> splitStr [c] s = [s]"
  by (induction s) auto

lemma splitStr_append_sep:
  "c \<notin> set x \<Longrightarrow> splitStr [c] (x @ c # s) = x # splitStr [c] s"
  by (induction x) auto

lemma splitStr_piece_no_sep: "p \<in> set (splitStr [c] s) \<Longrightarrow> c \<notin> set p"
proof (induction s arbitrary: p)
  case Nil
  then show ?case by simp
next
  case (Cons a s)
  obtain q qs where q: "splitStr [c] s = q # qs"
    using splitStr_not_Nil[of "[c]" s] by (cases "splitStr [c] s") auto
  show ?case
  proof (cases "a = c")
    case True
    then show ?thesis using Cons by auto
  next
    case False
    then have "p = a # q \<or> p \<in> set qs" using Cons.prems q by simp
    moreover have "c \<notin> set q" using Cons.IH[of q] q by simp
    moreover have "p \<in> set qs \<Longrightarrow> c \<notin> set p" using Cons.IH[of p] q by simp
    ultimately show ?thesis using False by auto
  qed
qed

text \<open>
  Splitting at a one-unit separator undoes joining with it, when no joined string holds
  the separator.
\<close>

lemma joinStr_Cons: "joinStr sep (x # ys) = x @ (if ys = [] then [] else sep @ joinStr sep ys)"
  by (cases ys) simp_all

lemma set_joinStr: "set (joinStr sep xs) \<subseteq> set sep \<union> \<Union> (set ` set xs)"
  by (induction xs) (auto simp: joinStr_Cons split: if_splits)

lemma splitStr_joinStr:
  "xs \<noteq> [] \<Longrightarrow> \<forall>x \<in> set xs. c \<notin> set x \<Longrightarrow> splitStr [c] (joinStr [c] xs) = xs"
proof (induction xs)
  case Nil
  then show ?case by simp
next
  case (Cons x xs)
  show ?case
  proof (cases xs)
    case Nil
    then show ?thesis using Cons.prems by (simp add: splitStr_no_sep)
  next
    case (Cons y ys)
    then show ?thesis using Cons.IH Cons.prems by (simp add: splitStr_append_sep)
  qed
qed

text \<open>
  \<open>trim\<close> keeps a part of the string, keeps a first unit that is no white space, and
  changes nothing when applied again.
\<close>

lemma set_trim: "set (trim s) \<subseteq> set s"
proof -
  have "set (trim s) = set (dropWhile isSpace (rev (dropWhile isSpace s)))"
    by (simp add: trim_def)
  also have "\<dots> \<subseteq> set (rev (dropWhile isSpace s))" by (rule set_dropWhileD[THEN subsetI])
  also have "\<dots> \<subseteq> set s" using set_dropWhileD[of _ isSpace s] by auto
  finally show ?thesis .
qed

lemma trim_Nil: "trim [] = []"
  by (simp add: trim_def)

lemma trim_Cons_nonspace: "\<not> isSpace c \<Longrightarrow> trim (c # r) = c # rev (dropWhile isSpace (rev r))"
  by (simp add: trim_def dropWhile_append3)

lemma trim_Cons_space: "isSpace c \<Longrightarrow> trim (c # r) = trim r"
  by (simp add: trim_def)

lemma trim_idem: "trim (trim s) = trim s"
proof -
  define a where "a = dropWhile isSpace s"
  define b where "b = dropWhile isSpace (rev a)"
  have t: "trim s = rev b" by (simp add: trim_def a_def b_def)
  have c1: "dropWhile isSpace (rev b) = rev b"
  proof (cases "b = []")
    case True
    then show ?thesis by simp
  next
    case False
    then have "a \<noteq> []" by (auto simp: b_def)
    then have ha: "\<not> isSpace (hd a)" unfolding a_def by (rule hd_dropWhile)
    have "suffix b (rev a)" unfolding b_def by (rule suffix_dropWhile)
    then obtain zs where "rev a = zs @ b" by (auto simp: suffix_def)
    then have "last (rev a) = last b" using False by simp
    then have "hd (rev b) = hd a" using False \<open>a \<noteq> []\<close> by (simp add: hd_rev last_rev)
    then show ?thesis using ha by (simp add: dropWhile_eq_self_iff)
  qed
  have "trim (rev b) = rev (dropWhile isSpace b)" by (simp add: trim_def c1)
  also have "\<dots> = rev b" by (simp add: b_def)
  finally show ?thesis by (simp add: t)
qed

lemma trim_sublist: "sublist (trim s) s"
proof -
  have "sublist (rev (trim s)) (rev (dropWhile isSpace s))"
    by (simp add: trim_def)
  then have "sublist (trim s) (dropWhile isSpace s)" by (simp only: sublist_rev)
  then show ?thesis using sublist_dropWhile[of isSpace s] sublist_order.order_trans by blast
qed

lemma natToString_digits: "set (natToString n) \<subseteq> {48..57}"
proof (induction n rule: natToString.induct)
  case (1 n)
  show ?case
  proof (cases "n < 10")
    case True
    then show ?thesis by (subst natToString.simps) auto
  next
    case False
    have "n mod 10 < 10" by simp
    then have "48 + n mod 10 \<in> {48..57}" by auto
    then show ?thesis using 1 False by (subst natToString.simps) auto
  qed
qed

lemma natToString_0: "natToString 0 = js ''0''"
  by (subst natToString.simps) (simp add: js_simps)

lemma natToString_1: "natToString (Suc 0) = js ''1''"
  by (subst natToString.simps) (simp add: js_simps)

section \<open>Properties of the compressor\<close>

text \<open>
  One round of the second loop either pushes nothing, or pushes the formatted text of
  the element parsed from the trimmed line, which \<open>isInteractive\<close> accepted.
\<close>

lemma filterLines_Cons_cases:
  obtains (skip) b' d' where
      "\<And>out. filterLines b d out (line # rest) = filterLines b' d' out rest"
    | (emit) e f where
      "parseYAMLLine (trim line) = Some e" "isInteractive e" "formatElement e = Some f"
      "\<And>out. filterLines b d out (line # rest) = filterLines False d (out @ [f]) rest"
proof -
  let ?meta = "startsWith (trim line) (js ''URL:'') \<or> startsWith (trim line) (js ''Title:'')
              \<or> startsWith (trim line) (js ''Page Loaded:'')"
  let ?kw = "list_ex (\<lambda>keyword. includesStr (toLowerCase (trim line)) keyword)
                SKIP_NAVIGATION_KEYWORDS"
  consider (a) "trim line = []"
    | (b) "trim line \<noteq> []" "?meta"
    | (c) "trim line \<noteq> []" "\<not> ?meta" "?kw"
    | (d) "trim line \<noteq> []" "\<not> ?meta" "\<not> ?kw" "b \<and> \<not> getIndentLevel line \<le> d"
    | (e) "trim line \<noteq> []" "\<not> ?meta" "\<not> ?kw" "\<not> (b \<and> \<not> getIndentLevel line \<le> d)"
    by blast
  then show thesis
  proof cases
    case a
    then have "filterLines b d out (line # rest) = filterLines b d out rest" for out
      by (simp add: filterLines.simps(2))
    then show ?thesis by (rule skip)
  next
    case b
    then have "filterLines b d out (line # rest) = filterLines b d out rest" for out
      by (simp add: filterLines.simps(2))
    then show ?thesis by (rule skip)
  next
    case c
    then have "filterLines b d out (line # rest) = filterLines True (getIndentLevel line) out rest" for out
      by (simp add: filterLines.simps(2))
    then show ?thesis by (rule skip)
  next
    case d
    then have "filterLines b d out (line # rest) = filterLines b d out rest" for out
      by (simp add: filterLines.simps(2))
    then show ?thesis by (rule skip)
  next
    case e
    note top = e
    show ?thesis
    proof (cases "parseYAMLLine (trim line)")
      case None
      with top have "filterLines b d out (line # rest) = filterLines False d out rest" for out
        by (auto simp: filterLines.simps(2))
      then show ?thesis by (rule skip)
    next
      case (Some el)
      show ?thesis
      proof (cases "isInteractive el")
        case False
        with top Some have "filterLines b d out (line # rest) = filterLines False d out rest" for out
          by (auto simp: filterLines.simps(2))
        then show ?thesis by (rule skip)
      next
        case True
        show ?thesis
        proof (cases "formatElement el")
          case None
          with top Some True
          have "filterLines b d out (line # rest) = filterLines False d out rest" for out
            by (auto simp: filterLines.simps(2))
          then show ?thesis by (rule skip)
        next
          case (Some f)
          show ?thesis
          proof (cases "f = []")
            case True
            with top \<open>parseYAMLLine (trim line) = Some el\<close> \<open>isInteractive el\<close> Some
            have "filterLines b d out (line # rest) = filterLines False d out rest" for out
              by (auto simp: filterLines.simps(2))
            then show ?thesis by (rule skip)
          next
            case False
            with top \<open>parseYAMLLine (trim line) = Some el\<close> \<open>isInteractive el\<close> Some
            have "filterLines b d out (line # rest) = filterLines False d (out @ [f]) rest" for out
              by (auto simp: filterLines.simps(2))
            with \<open>parseYAMLLine (trim line) = Some el\<close> \<open>isInteractive el\<close> Some
            show ?thesis by (rule emit)
          qed
        qed
      qed
    qed
  qed
qed

lemma filterLines_output:
  "filterLines b d out ls = out @ filterLines b d [] ls"
proof (induction ls arbitrary: b d out)
  case Nil
  then show ?case by simp
next
  case (Cons line rest)
  show ?case
  proof (cases rule: filterLines_Cons_cases[of b d line rest])
    case (skip b' d')
    have "filterLines b d out (line # rest) = out @ filterLines b' d' [] rest"
      using skip[of out] Cons.IH[of b' d' out] by simp
    then show ?thesis using skip[of "[]"] by simp
  next
    case (emit e f)
    have "filterLines b d out (line # rest) = (out @ [f]) @ filterLines False d [] rest"
      using emit(4)[of out] Cons.IH[of False d "out @ [f]"] by simp
    moreover have "filterLines b d [] (line # rest) = [f] @ filterLines False d [] rest"
      using emit(4)[of "[]"] Cons.IH[of False d "[f]"] by simp
    ultimately show ?thesis by simp
  qed
qed

lemma filterLines_emitted:
  "l \<in> set (filterLines b d [] ls) \<Longrightarrow>
   \<exists>line \<in> set ls. \<exists>e. parseYAMLLine (trim line) = Some e \<and> isInteractive e
                      \<and> formatElement e = Some l"
proof (induction ls arbitrary: b d)
  case Nil
  then show ?case by simp
next
  case (Cons line rest)
  show ?case
  proof (cases rule: filterLines_Cons_cases[of b d line rest])
    case (skip b' d')
    then have "l \<in> set (filterLines b' d' [] rest)" using Cons.prems by simp
    from Cons.IH[OF this] show ?thesis by auto
  next
    case (emit e f)
    have "filterLines b d [] (line # rest) = [f] @ filterLines False d [] rest"
      using emit(4)[of "[]"] filterLines_output[of False d "[f]" rest] by simp
    then have "l = f \<or> l \<in> set (filterLines False d [] rest)" using Cons.prems by auto
    then show ?thesis
    proof
      assume "l = f"
      then show ?thesis using emit(1-3) by auto
    next
      assume "l \<in> set (filterLines False d [] rest)"
      from Cons.IH[OF this] show ?thesis by auto
    qed
  qed
qed

lemma filterLines_nothing_parses:
  "\<forall>line \<in> set ls. parseYAMLLine (trim line) = None \<Longrightarrow> filterLines b d out ls = out"
proof (induction ls arbitrary: b d)
  case Nil
  then show ?case by simp
next
  case (Cons line rest)
  show ?case
  proof (cases rule: filterLines_Cons_cases[of b d line rest])
    case (skip b' d')
    then show ?thesis using Cons by simp
  next
    case (emit e f)
    then show ?thesis using Cons.prems by simp
  qed
qed

text \<open>
  Every part of a parsed element is made of units of the line.
\<close>

lemma matchRole_subset: "matchRole s = Some r \<Longrightarrow> set r \<subseteq> set s"
proof -
  assume a: "matchRole s = Some r"
  then obtain c rest where s: "s = c # rest" by (cases s) (auto simp: matchRole_def)
  with a have "r = takeWhile isWord (dropWhile isSpace rest)"
    by (auto simp: matchRole_def split: if_splits)
  then have "set r \<subseteq> set rest"
    using set_takeWhileD[of _ isWord "dropWhile isSpace rest"] set_dropWhileD[of _ isSpace rest]
    by blast
  then show ?thesis using s by auto
qed

lemma matchName_subset: "matchName s = Some n \<Longrightarrow> set n \<subseteq> set s"
proof (induction s)
  case Nil
  then show ?case by simp
next
  case (Cons c s)
  then show ?case
    using set_takeWhileD[of _ "\<lambda>x. x \<noteq> 34" s]
    by (auto split: if_splits)
qed

lemma matchRef_subset: "matchRef s = Some n \<Longrightarrow> set n \<subseteq> set s"
proof (induction s)
  case Nil
  then show ?case by simp
next
  case (Cons c s)
  have "set (takeWhile isWord (drop 5 (c # s))) \<subseteq> set (c # s)"
    using set_takeWhileD[of _ isWord "drop 5 (c # s)"] set_drop_subset[of 5 "c # s"] by blast
  with Cons show ?case
    by (auto simp del: drop_Suc_Cons startsWith.simps split: if_splits)
qed

lemma afterQuote_subset: "set (afterQuote s) \<subseteq> set s"
  by (cases s) (auto simp: afterQuote_def)

lemma matchUrl_subset: "matchUrl s = Some n \<Longrightarrow> set n \<subseteq> set s"
proof (induction s)
  case Nil
  then show ?case by simp
next
  case (Cons c s)
  let ?u = "takeWhile (\<lambda>x. x \<noteq> 34 \<and> \<not> isSpace x) (afterQuote (dropWhile isSpace (drop 5 (c # s))))"
  have "set ?u \<subseteq> set (afterQuote (dropWhile isSpace (drop 5 (c # s))))"
    using set_takeWhileD by fastforce
  also have "\<dots> \<subseteq> set (dropWhile isSpace (drop 5 (c # s)))" by (rule afterQuote_subset)
  also have "\<dots> \<subseteq> set (drop 5 (c # s))" using set_dropWhileD by fastforce
  also have "\<dots> \<subseteq> set (c # s)" by (rule set_drop_subset)
  finally have "set ?u \<subseteq> set (c # s)" .
  with Cons show ?case
    by (auto simp del: drop_Suc_Cons startsWith.simps split: if_splits)
qed

lemma parseYAMLLine_subset:
  assumes "parseYAMLLine s = Some e"
  shows "set (role e) \<subseteq> set s" "set (name e) \<subseteq> set s" "set (ref e) \<subseteq> set s"
    "set (url e) \<subseteq> set s"
proof -
  from assms obtain r where r: "matchRole s = Some r"
    and e: "e = \<lparr> elType = js ''element'', role = r,
                 name = (case matchName s of Some n \<Rightarrow> n | None \<Rightarrow> []),
                 ref = (case matchRef s of Some i \<Rightarrow> i | None \<Rightarrow> []),
                 url = (case matchUrl s of Some u \<Rightarrow> u | None \<Rightarrow> []),
                 visible = (\<not> includesStr s (js ''(hidden)'')) \<rparr>"
    by (auto simp: parseYAMLLine_def split: option.splits)
  show "set (role e) \<subseteq> set s" using matchRole_subset[OF r] e by simp
  show "set (name e) \<subseteq> set s" using matchName_subset[of s] e by (auto split: option.splits)
  show "set (ref e) \<subseteq> set s" using matchRef_subset[of s] e by (auto split: option.splits)
  show "set (url e) \<subseteq> set s" using matchUrl_subset[of s] e by (auto split: option.splits)
qed

lemma parseYAMLLine_first_unit:
  "\<not> isSpace c \<Longrightarrow> c \<noteq> 45 \<Longrightarrow> parseYAMLLine (trim (c # r)) = None"
  by (simp add: trim_Cons_nonspace parseYAMLLine_def matchRole_def)

lemma formatElement_Some:
  assumes "formatElement e = Some l"
  shows "ref e \<noteq> []" and "\<exists>r. l = 91 # r"
    and "set l \<subseteq> {32, 34, 91, 93, 8594} \<union> set (ref e) \<union> set (role e) \<union> set (name e) \<union> set (url e)"
proof -
  show r: "ref e \<noteq> []" using assms by (auto simp: formatElement_def split: if_splits)
  let ?parts = "[js ''['' @ ref e @ js '']'']
         @ (if role e \<noteq> [] then [role e] else [])
         @ (if name e \<noteq> [] then [[34] @ name e @ [34]] else [])
         @ (if url e \<noteq> [] then [[8594, 32] @ url e] else [])"
  have l: "l = joinStr (js '' '') ?parts" using assms r by (simp add: formatElement_def)
  show "\<exists>r. l = 91 # r" unfolding l by (simp add: joinStr_Cons js_simps)
  have "set l \<subseteq> set (js '' '') \<union> \<Union> (set ` set ?parts)" unfolding l by (rule set_joinStr)
  then show "set l \<subseteq> {32, 34, 91, 93, 8594} \<union> set (ref e) \<union> set (role e) \<union> set (name e) \<union> set (url e)"
    by (auto simp: js_simps split: if_splits)
qed

lemma isInteractive_visible: "isInteractive e \<Longrightarrow> visible e"
  by (simp add: isInteractive_def split: if_splits)

text \<open>
  The header: made of units of the first lines.
\<close>

lemma secondPiece_subset: "set (secondPiece sep line) \<subseteq> set line"
proof (cases "splitStr sep line")
  case Nil
  then show ?thesis by (simp add: secondPiece_def)
next
  case (Cons p0 ps)
  show ?thesis
  proof (cases ps)
    case Nil
    with Cons show ?thesis by (simp add: secondPiece_def)
  next
    case (Cons p1 qs)
    with \<open>splitStr sep line = p0 # ps\<close> have "p1 \<in> set (splitStr sep line)" by simp
    then have "set p1 \<subseteq> set line" by (rule splitStr_pieces_subset)
    then show ?thesis using set_trim[of p1] Cons \<open>splitStr sep line = p0 # ps\<close>
      by (auto simp: secondPiece_def)
  qed
qed

lemma headerStep_subset:
  "set (fst (headerStep h line)) \<subseteq> set (fst h) \<union> set line"
  "set (snd (headerStep h line)) \<subseteq> set (snd h) \<union> set line"
  using secondPiece_subset[of "js ''URL:''" line] secondPiece_subset[of "js ''Title:''" line]
  by (auto simp: headerStep_def)

lemma foldl_headerStep_subset:
  "set (fst (foldl headerStep h ls)) \<subseteq> set (fst h) \<union> \<Union> (set ` set ls)
   \<and> set (snd (foldl headerStep h ls)) \<subseteq> set (snd h) \<union> \<Union> (set ` set ls)"
proof (induction ls arbitrary: h)
  case Nil
  then show ?case by simp
next
  case (Cons l ls)
  show ?case using Cons.IH[of "headerStep h l"] headerStep_subset[of h l] by auto
qed

lemma extractHeader_subset:
  "set (fst (extractHeader ls)) \<subseteq> \<Union> (set ` set ls)"
  "set (snd (extractHeader ls)) \<subseteq> \<Union> (set ` set ls)"
proof -
  have "\<Union> (set ` set (take 10 ls)) \<subseteq> \<Union> (set ` set ls)"
    using set_take_subset[of 10 ls] by blast
  then show "set (fst (extractHeader ls)) \<subseteq> \<Union> (set ` set ls)"
    "set (snd (extractHeader ls)) \<subseteq> \<Union> (set ` set ls)"
    using foldl_headerStep_subset[of "([], [])" "take 10 ls"]
    unfolding extractHeader_def by auto
qed

lemma banner_no_nl: "10 \<notin> set banner"
  by (simp add: banner_def js_simps)

lemma initialOutput_no_nl:
  "10 \<notin> set (fst h) \<Longrightarrow> 10 \<notin> set (snd h) \<Longrightarrow> l \<in> set (initialOutput h) \<Longrightarrow> 10 \<notin> set l"
  using banner_no_nl by (auto simp: initialOutput_def js_simps split: if_splits)

lemma initialOutput_no_bracket:
  "l \<in> set (initialOutput h) \<Longrightarrow> \<not> startsWith l (js ''['')"
  by (auto simp: initialOutput_def banner_def js_simps split: if_splits)

lemma summaryLine_no_nl: "10 \<notin> set (summaryLine out)"
  using natToString_digits[of "length (filter (\<lambda>l. startsWith l (js ''['')) out)"]
  by (auto simp: summaryLine_def js_simps)

lemma summaryLine_no_bracket: "\<not> startsWith (summaryLine out) (js ''['')"
  by (simp add: summaryLine_def js_simps)

lemma summaryLine_no_entries:
  "\<forall>l \<in> set out. \<not> startsWith l (js ''['') \<Longrightarrow> summaryLine out = js ''Total interactive elements: 0''"
proof -
  assume "\<forall>l \<in> set out. \<not> startsWith l (js ''['')"
  then have "filter (\<lambda>l. startsWith l (js ''['')) out = []" by (simp add: filter_empty_conv)
  then show ?thesis by (simp add: summaryLine_def natToString_0 js_def)
qed

text \<open>
  The output array, and the lines of the output text: no entry of the array holds a
  line feed, so splitting the text gives the array back.
\<close>

lemma trimLines_shape:
  "trimLines t = initialOutput (extractHeader (splitStr [10] t))
      @ filterLines False 0 [] (splitStr [10] t)
      @ [[], summaryLine (initialOutput (extractHeader (splitStr [10] t))
                           @ filterLines False 0 [] (splitStr [10] t) @ [[]])]"
  using filterLines_output[of False 0 "initialOutput (extractHeader (splitStr [10] t))" "splitStr [10] t"]
  by (simp add: trimLines_def Let_def)

lemma trimLines_no_entries:
  assumes "filterLines False 0 [] (splitStr [10] t) = []"
  shows "trimLines t = initialOutput (extractHeader (splitStr [10] t))
                         @ [[], js ''Total interactive elements: 0'']"
proof -
  let ?io = "initialOutput (extractHeader (splitStr [10] t))"
  have "\<forall>l \<in> set (?io @ [[]]). \<not> startsWith l (js ''['')"
    using initialOutput_no_bracket by (auto simp: js_simps)
  then have "summaryLine (?io @ [[]]) = js ''Total interactive elements: 0''"
    by (rule summaryLine_no_entries)
  then show ?thesis unfolding trimLines_shape assms by simp
qed

lemma emitted_no_nl:
  assumes "l \<in> set (filterLines b d [] (splitStr [10] t))"
  shows "10 \<notin> set l"
proof -
  from filterLines_emitted[OF assms] obtain line e where
    line: "line \<in> set (splitStr [10] t)" and p: "parseYAMLLine (trim line) = Some e"
    and f: "formatElement e = Some l" by blast
  have "10 \<notin> set line" using line by (rule splitStr_piece_no_sep)
  then have "10 \<notin> set (trim line)" using set_trim[of line] by blast
  then have "10 \<notin> set (ref e) \<union> set (role e) \<union> set (name e) \<union> set (url e)"
    using parseYAMLLine_subset[OF p] by blast
  then show ?thesis using formatElement_Some(3)[OF f] by auto
qed

lemma trimLines_no_nl: "l \<in> set (trimLines t) \<Longrightarrow> 10 \<notin> set l"
proof -
  assume l: "l \<in> set (trimLines t)"
  let ?ls = "splitStr [10] t"
  have ls: "\<forall>x \<in> set ?ls. 10 \<notin> set x" using splitStr_piece_no_sep by blast
  have h: "10 \<notin> set (fst (extractHeader ?ls))" "10 \<notin> set (snd (extractHeader ?ls))"
    using extractHeader_subset[of ?ls] ls by blast+
  from l consider "l \<in> set (initialOutput (extractHeader ?ls))"
    | "l \<in> set (filterLines False 0 [] ?ls)" | "l = []"
    | "l = summaryLine (initialOutput (extractHeader ?ls) @ filterLines False 0 [] ?ls @ [[]])"
    unfolding trimLines_shape by auto
  then show ?thesis
  proof cases
    case 1 then show ?thesis using initialOutput_no_nl[OF h] by blast
  next
    case 2 then show ?thesis by (rule emitted_no_nl)
  next
    case 3 then show ?thesis by simp
  next
    case 4 then show ?thesis using summaryLine_no_nl by simp
  qed
qed

lemma lines_of_trimYAMLSnapshot: "splitStr [10] (trimYAMLSnapshot t) = trimLines t"
  unfolding trimYAMLSnapshot_def
  using trimLines_no_nl[of _ t]
  by (intro splitStr_joinStr) (auto simp: trimLines_shape)

text \<open>
  A snapshot of one line, evaluated: \<open>- button "OK" [ref=e1]\<close>.
\<close>

lemmas eval_defs = js_simps trim_def isSpace_def isWord_def toLowerCase_def lowerUnit_def
  SKIP_NAVIGATION_KEYWORDS_def parseYAMLLine_def matchRole_def afterQuote_def
  isInteractive_def INTERACTIVE_ROLES_def SKIP_ROLES_def formatElement_def filterLines.simps(2)

lemma sample_lines:
  "splitStr [10] (js ''- button \"OK\" [ref=e1]'') = [js ''- button \"OK\" [ref=e1]'']"
  by (simp add: js_simps)

lemma sample_entries:
  "filterLines False 0 [] [js ''- button \"OK\" [ref=e1]''] = [js ''[e1] button \"OK\"'']"
  by (simp add: eval_defs)

lemma sample_header: "extractHeader [js ''- button \"OK\" [ref=e1]''] = ([], [])"
  by (simp add: extractHeader_def headerStep_def js_simps)

lemma sample_trimLines:
  "trimLines (js ''- button \"OK\" [ref=e1]'')
     = [[], banner, [], js ''[e1] button \"OK\"'', [], js ''Total interactive elements: 1'']"
proof -
  have "summaryLine ([[], banner, []] @ [js ''[e1] button \"OK\"''] @ [[]])
      = js ''Total interactive elements: 1''"
    by (simp add: summaryLine_def banner_def natToString_1 js_simps)
  then show ?thesis
    unfolding trimLines_shape sample_lines sample_entries sample_header
    by (simp add: initialOutput_def)
qed

lemma sample_second_header:
  "extractHeader [[], banner, [], js ''[e1] button \"OK\"'', [], js ''Total interactive elements: 1'']
     = ([], [])"
  by (simp add: extractHeader_def headerStep_def banner_def js_simps)

text \<open>
  Claim C8. Every element line of the output text (a line that begins with a bracket)
  is the formatted text of an element parsed from a line of the input, and that element
  has a reference id that is not empty and is not marked hidden.
\<close>

theorem emitted_entries_have_ref_and_are_visible:
  "\<forall>l \<in> set (splitStr [10] (trimYAMLSnapshot yamlText)). startsWith l (js ''['') \<longrightarrow>
     (\<exists>line \<in> set (splitStr [10] yamlText). \<exists>element.
        parseYAMLLine (trim line) = Some element \<and> formatElement element = Some l
        \<and> ref element \<noteq> [] \<and> visible element)"
proof (intro ballI impI)
  fix l
  let ?ls = "splitStr [10] yamlText"
  assume "l \<in> set (splitStr [10] (trimYAMLSnapshot yamlText))" and br: "startsWith l (js ''['')"
  then have "l \<in> set (trimLines yamlText)" by (simp add: lines_of_trimYAMLSnapshot)
  then consider "l \<in> set (initialOutput (extractHeader ?ls))"
    | "l \<in> set (filterLines False 0 [] ?ls)" | "l = []"
    | "l = summaryLine (initialOutput (extractHeader ?ls) @ filterLines False 0 [] ?ls @ [[]])"
    unfolding trimLines_shape by auto
  then have "l \<in> set (filterLines False 0 [] ?ls)"
  proof cases
    case 1 then show ?thesis using initialOutput_no_bracket br by blast
  next
    case 2 then show ?thesis .
  next
    case 3 then show ?thesis using br by (simp add: js_simps)
  next
    case 4 then show ?thesis using summaryLine_no_bracket br by simp
  qed
  from filterLines_emitted[OF this] obtain line e where
    "line \<in> set ?ls" "parseYAMLLine (trim line) = Some e" "isInteractive e"
    "formatElement e = Some l" by blast
  then show "\<exists>line \<in> set ?ls. \<exists>element.
        parseYAMLLine (trim line) = Some element \<and> formatElement element = Some l
        \<and> ref element \<noteq> [] \<and> visible element"
    using formatElement_Some(1) isInteractive_visible by blast
qed

text \<open>
  Claim C8 at the one-line snapshot: its output holds the entry \<open>[e1] button "OK"\<close>,
  which comes from a visible element with the reference id \<open>e1\<close>.
\<close>

theorem emitted_entries_have_ref_and_are_visible_witness:
  "js ''[e1] button \"OK\"'' \<in> set (splitStr [10] (trimYAMLSnapshot (js ''- button \"OK\" [ref=e1]'')))
   \<and> startsWith (js ''[e1] button \"OK\"'') (js ''['')
   \<and> (\<exists>line \<in> set (splitStr [10] (js ''- button \"OK\" [ref=e1]'')). \<exists>element.
        parseYAMLLine (trim line) = Some element
        \<and> formatElement element = Some (js ''[e1] button \"OK\"'')
        \<and> ref element \<noteq> [] \<and> visible element)"
proof -
  have mem: "js ''[e1] button \"OK\"'' \<in> set (splitStr [10] (trimYAMLSnapshot (js ''- button \"OK\" [ref=e1]'')))"
    unfolding lines_of_trimYAMLSnapshot sample_trimLines by simp
  have br: "startsWith (js ''[e1] button \"OK\"'') (js ''['')" by (simp add: js_simps)
  from emitted_entries_have_ref_and_are_visible[of "js ''- button \"OK\" [ref=e1]''"] mem br
  show ?thesis by blast
qed

section \<open>Properties of the entry point\<close>

text \<open>
  One round of the loop of \<open>trimSnapshot\<close>: when it throws and what it pushes.
\<close>

lemma textCondition_Inl: "textCondition item = Inl e \<longleftrightarrow> item = Null \<or> item = Undefined"
proof -
  have e: "e = TypeError" by (cases e)
  show ?thesis unfolding e by (cases item) (simp_all add: textCondition_def)
qed

lemma trimItem_False: "textCondition item = Inr False \<Longrightarrow> trimItem item = Inr item"
  by (simp add: trimItem_def)

lemma trimItem_True_Str:
  "textCondition item = Inr True \<Longrightarrow> getProp item (js ''text'') = Inr (Str s) \<Longrightarrow>
   trimItem item = Inr (textItem (trimYAMLSnapshot s))"
  by (simp add: trimItem_def)

lemma trimItem_True_other:
  assumes "textCondition item = Inr True" and "\<nexists>s. getProp item (js ''text'') = Inr (Str s)"
  shows "trimItem item = Inl TypeError"
proof (cases "getProp item (js ''text'')")
  case (Inl e)
  then show ?thesis using assms(1) by (cases e) (simp add: trimItem_def)
next
  case (Inr tx)
  then have "\<nexists>s. tx = Str s" using assms(2) by simp
  then have "trimText tx = Inl TypeError" by (cases tx) simp_all
  then show ?thesis using assms(1) Inr by (simp add: trimItem_def)
qed

lemma trimItem_Inr_iff:
  "(\<exists>y. trimItem item = Inr y) \<longleftrightarrow>
     item \<noteq> Null \<and> item \<noteq> Undefined
     \<and> (textCondition item = Inr True \<longrightarrow> (\<exists>s. getProp item (js ''text'') = Inr (Str s)))"
proof (cases "textCondition item")
  case (Inl e)
  then show ?thesis using textCondition_Inl[of item e] by (auto simp: trimItem_def)
next
  case (Inr b)
  then have nn: "item \<noteq> Null \<and> item \<noteq> Undefined"
    using textCondition_Inl[of item TypeError] by auto
  show ?thesis
  proof (cases b)
    case False
    then show ?thesis using Inr nn trimItem_False[of item] by simp
  next
    case True
    then have t: "textCondition item = Inr True" using Inr by simp
    show ?thesis
    proof (cases "\<exists>s. getProp item (js ''text'') = Inr (Str s)")
      case True
      then show ?thesis using trimItem_True_Str[OF t] nn by auto
    next
      case False
      then show ?thesis using trimItem_True_other[OF t] t by auto
    qed
  qed
qed

text \<open>
  The loop returns exactly when every round does, and then it has pushed one item for
  each item of the input, in order.
\<close>

lemma trimLoop_acc:
  "trimLoop acc items = (case trimLoop [] items of Inl e \<Rightarrow> Inl e | Inr out \<Rightarrow> Inr (acc @ out))"
proof (induction items arbitrary: acc)
  case Nil
  then show ?case by simp
next
  case (Cons item rest)
  show ?case
  proof (cases "trimItem item")
    case (Inl e)
    then show ?thesis by simp
  next
    case (Inr pushed)
    then show ?thesis
      using Cons.IH[of "acc @ [pushed]"] Cons.IH[of "[pushed]"]
      by (simp split: sum.splits)
  qed
qed

lemma trimLoop_Cons:
  "trimLoop [] (item # rest) =
     (case trimItem item of
        Inl e \<Rightarrow> Inl e
      | Inr pushed \<Rightarrow> (case trimLoop [] rest of Inl e \<Rightarrow> Inl e | Inr ys \<Rightarrow> Inr (pushed # ys)))"
proof (cases "trimItem item")
  case (Inl e)
  then show ?thesis by simp
next
  case (Inr pushed)
  then show ?thesis using trimLoop_acc[of "[pushed]" rest] by (simp split: sum.splits)
qed

lemma trimLoop_Inr_iff:
  "trimLoop [] items = Inr out \<longleftrightarrow> list_all2 (\<lambda>item pushed. trimItem item = Inr pushed) items out"
proof (induction items arbitrary: out)
  case Nil
  then show ?case by auto
next
  case (Cons item rest)
  show ?case
  proof (cases "trimItem item")
    case (Inl e)
    have "trimLoop [] (item # rest) \<noteq> Inr out" unfolding trimLoop_Cons Inl by simp
    moreover have "\<not> list_all2 (\<lambda>item pushed. trimItem item = Inr pushed) (item # rest) out"
      unfolding list_all2_Cons1 using Inl by simp
    ultimately show ?thesis by blast
  next
    case (Inr pushed)
    show ?thesis
    proof (cases out)
      case Nil
      have "trimLoop [] (item # rest) \<noteq> Inr []"
        unfolding trimLoop_Cons Inr by (cases "trimLoop [] rest") simp_all
      then show ?thesis using Nil by simp
    next
      case (Cons y ys)
      have "trimLoop [] (item # rest) = Inr (y # ys) \<longleftrightarrow> pushed = y \<and> trimLoop [] rest = Inr ys"
        unfolding trimLoop_Cons Inr by (cases "trimLoop [] rest") auto
      also have "\<dots> \<longleftrightarrow> pushed = y \<and> list_all2 (\<lambda>item pushed. trimItem item = Inr pushed) rest ys"
        using Cons.IH[of ys] by simp
      also have "\<dots> \<longleftrightarrow> list_all2 (\<lambda>item pushed. trimItem item = Inr pushed) (item # rest) (y # ys)"
        using Inr by auto
      finally show ?thesis using Cons by simp
    qed
  qed
qed

lemma trimLoop_returns_iff:
  "(\<exists>out. trimLoop [] items = Inr out) \<longleftrightarrow> (\<forall>item \<in> set items. \<exists>y. trimItem item = Inr y)"
proof (induction items)
  case Nil
  then show ?case by simp
next
  case (Cons item rest)
  show ?case
  proof (cases "trimItem item")
    case (Inl e)
    have "\<nexists>out. trimLoop [] (item # rest) = Inr out" unfolding trimLoop_Cons Inl by simp
    moreover have "\<nexists>y. trimItem item = Inr y" using Inl by simp
    ultimately show ?thesis by auto
  next
    case (Inr pushed)
    have "(\<exists>out. trimLoop [] (item # rest) = Inr out) \<longleftrightarrow> (\<exists>ys. trimLoop [] rest = Inr ys)"
      unfolding trimLoop_Cons Inr by (cases "trimLoop [] rest") auto
    then show ?thesis using Cons.IH Inr by simp
  qed
qed

lemma trimSnapshot_Arr:
  "trimSnapshot (Arr items) = (case trimLoop [] items of Inl e \<Rightarrow> Inl e | Inr out \<Rightarrow> Inr (Arr out))"
  by (simp add: trimSnapshot_def)




lemma textCondition_textItem: "s \<noteq> [] \<Longrightarrow> textCondition (textItem s) = Inr True"
  by (simp add: textCondition_def textItem_def js_simps)

lemma getProp_textItem: "getProp (textItem s) (js ''text'') = Inr (Str s)"
  by (simp add: textItem_def js_simps)

lemma textCondition_samples:
  "textCondition (Num 3) = Inr False"
  "textCondition (Obj [(js ''type'', Str (js ''image''))]) = Inr False"
  by (simp_all add: textCondition_def js_simps)

text \<open>
  What a returning call on an array has built: one item for each item, in order, the
  item itself where the test of the loop is false.
\<close>

lemma trimSnapshot_returned_frame:
  assumes "trimSnapshot (Arr items) = Inr out"
  shows "\<exists>ys. out = Arr ys \<and> length ys = length items \<and>
         (\<forall>i < length items. \<exists>b. textCondition (items ! i) = Inr b \<and>
            (if b then \<exists>s. getProp (items ! i) (js ''text'') = Inr (Str s)
                           \<and> ys ! i = textItem (trimYAMLSnapshot s)
             else ys ! i = items ! i))"
proof -
  from assms obtain ys where ys: "trimLoop [] items = Inr ys" and out: "out = Arr ys"
    unfolding trimSnapshot_Arr by (auto split: sum.splits)
  from ys have all2: "list_all2 (\<lambda>item pushed. trimItem item = Inr pushed) items ys"
    by (simp add: trimLoop_Inr_iff)
  then have len: "length ys = length items" by (simp add: list_all2_lengthD)
  have "\<exists>b. textCondition (items ! i) = Inr b \<and>
            (if b then \<exists>s. getProp (items ! i) (js ''text'') = Inr (Str s)
                           \<and> ys ! i = textItem (trimYAMLSnapshot s)
             else ys ! i = items ! i)" if i: "i < length items" for i
  proof -
    have ti: "trimItem (items ! i) = Inr (ys ! i)" using list_all2_nthD[OF all2 i] by simp
    show ?thesis
    proof (cases "textCondition (items ! i)")
      case (Inl e)
      then show ?thesis using ti by (simp add: trimItem_def)
    next
      case (Inr b)
      show ?thesis
      proof (cases b)
        case False
        then have "ys ! i = items ! i" using Inr ti trimItem_False[of "items ! i"] by simp
        then show ?thesis using Inr False by auto
      next
        case True
        then have t: "textCondition (items ! i) = Inr True" using Inr by simp
        have "\<exists>s. getProp (items ! i) (js ''text'') = Inr (Str s)"
          using trimItem_True_other[OF t] ti by auto
        then obtain s where s: "getProp (items ! i) (js ''text'') = Inr (Str s)" by blast
        then have "ys ! i = textItem (trimYAMLSnapshot s)"
          using trimItem_True_Str[OF t s] ti by simp
        then show ?thesis using t s by auto
      qed
    qed
  qed
  then show ?thesis using out len by blast
qed

lemma trimSnapshot_returns_iff:
  "(\<exists>out. trimSnapshot (Arr items) = Inr out) \<longleftrightarrow>
     (\<forall>item \<in> set items. item \<noteq> Null \<and> item \<noteq> Undefined
        \<and> (textCondition item = Inr True \<longrightarrow> (\<exists>s. getProp item (js ''text'') = Inr (Str s))))"
proof -
  have "(\<exists>out. trimSnapshot (Arr items) = Inr out) \<longleftrightarrow> (\<exists>ys. trimLoop [] items = Inr ys)"
    unfolding trimSnapshot_Arr by (auto split: sum.splits)
  then show ?thesis by (simp only: trimLoop_returns_iff trimItem_Inr_iff)
qed

text \<open>
  Claim C10 says that for every input array the output array has the length and order of
  the input, with every item that is no text item with text unchanged in its place. An
  array that holds \<open>null\<close> has no output array: the entry point throws at that item,
  also after items it has already passed.
\<close>

theorem trimSnapshot_frame_counterexample:
  "trimSnapshot (Arr [Num 3, Null]) = Inl TypeError"
  by (simp add: trimSnapshot_def trimItem_def textCondition_def)

text \<open>
  Claim C10, amended: the entry point returns on an input array if and only if no item is
  \<open>null\<close> or \<open>undefined\<close> and every item for which the test
  \<open>item.type === 'text' && item.text\<close> holds has a string as its text. For every
  such array the output is an array of the same length, and at every index the item is
  the input's item, unless that test holds for it; then it is a text item that holds the
  compressed text.
\<close>

theorem trimSnapshot_frame:
  "((\<exists>out. trimSnapshot (Arr items) = Inr out) \<longleftrightarrow>
      (\<forall>item \<in> set items. item \<noteq> Null \<and> item \<noteq> Undefined
         \<and> (textCondition item = Inr True \<longrightarrow> (\<exists>s. getProp item (js ''text'') = Inr (Str s)))))
   \<and> ((\<forall>item \<in> set items. item \<noteq> Null \<and> item \<noteq> Undefined
          \<and> (textCondition item = Inr True \<longrightarrow> (\<exists>s. getProp item (js ''text'') = Inr (Str s))))
        \<longrightarrow> (\<exists>ys. trimSnapshot (Arr items) = Inr (Arr ys) \<and> length ys = length items \<and>
               (\<forall>i < length items. \<exists>b. textCondition (items ! i) = Inr b \<and>
                  (if b then \<exists>s. getProp (items ! i) (js ''text'') = Inr (Str s)
                                 \<and> ys ! i = textItem (trimYAMLSnapshot s)
                   else ys ! i = items ! i))))"
proof (intro conjI impI)
  show "(\<exists>out. trimSnapshot (Arr items) = Inr out) \<longleftrightarrow>
      (\<forall>item \<in> set items. item \<noteq> Null \<and> item \<noteq> Undefined
         \<and> (textCondition item = Inr True \<longrightarrow> (\<exists>s. getProp item (js ''text'') = Inr (Str s))))"
    by (rule trimSnapshot_returns_iff)
next
  assume "\<forall>item \<in> set items. item \<noteq> Null \<and> item \<noteq> Undefined
          \<and> (textCondition item = Inr True \<longrightarrow> (\<exists>s. getProp item (js ''text'') = Inr (Str s)))"
  then obtain out where out: "trimSnapshot (Arr items) = Inr out"
    using trimSnapshot_returns_iff[of items] by blast
  from trimSnapshot_returned_frame[of items] out
  obtain ys where "out = Arr ys" "length ys = length items"
    "\<forall>i < length items. \<exists>b. textCondition (items ! i) = Inr b \<and>
                  (if b then \<exists>s. getProp (items ! i) (js ''text'') = Inr (Str s)
                                 \<and> ys ! i = textItem (trimYAMLSnapshot s)
                   else ys ! i = items ! i)"
    by blast
  then show "\<exists>ys. trimSnapshot (Arr items) = Inr (Arr ys) \<and> length ys = length items \<and>
               (\<forall>i < length items. \<exists>b. textCondition (items ! i) = Inr b \<and>
                  (if b then \<exists>s. getProp (items ! i) (js ''text'') = Inr (Str s)
                                 \<and> ys ! i = textItem (trimYAMLSnapshot s)
                   else ys ! i = items ! i))"
    using out by blast
qed

text \<open>
  Claim C10, amended, at an array of a number, a text item and an image item: the number
  and the image item stay where they are, the text item is replaced.
\<close>

theorem trimSnapshot_frame_witness:
  "\<exists>ys. trimSnapshot (Arr [Num 3, textItem (js ''hello''), Obj [(js ''type'', Str (js ''image''))]])
          = Inr (Arr ys)
     \<and> length ys = 3
     \<and> ys ! 0 = Num 3
     \<and> ys ! 1 = textItem (trimYAMLSnapshot (js ''hello''))
     \<and> ys ! 2 = Obj [(js ''type'', Str (js ''image''))]"
proof -
  let ?items = "[Num 3, textItem (js ''hello''), Obj [(js ''type'', Str (js ''image''))]]"
  have hne: "js ''hello'' \<noteq> []" by (simp add: js_simps)
  have wf: "\<forall>item \<in> set ?items. item \<noteq> Null \<and> item \<noteq> Undefined
          \<and> (textCondition item = Inr True \<longrightarrow> (\<exists>s. getProp item (js ''text'') = Inr (Str s)))"
    by (simp add: textCondition_samples getProp_textItem) (simp add: textItem_def)
  from trimSnapshot_frame[of ?items] wf
  obtain ys where r: "trimSnapshot (Arr ?items) = Inr (Arr ys)"
    and len: "length ys = length ?items"
    and each: "\<forall>i < length ?items. \<exists>b. textCondition (?items ! i) = Inr b \<and>
            (if b then \<exists>s. getProp (?items ! i) (js ''text'') = Inr (Str s)
                           \<and> ys ! i = textItem (trimYAMLSnapshot s)
             else ys ! i = ?items ! i)"
    by blast
  from each[rule_format, of 0] have y0: "ys ! 0 = Num 3"
    by (auto simp: textCondition_samples)
  from each[rule_format, of 1] have y1: "ys ! 1 = textItem (trimYAMLSnapshot (js ''hello''))"
    by (auto simp: textCondition_textItem[OF hne] getProp_textItem)
  from each[rule_format, of 2] have y2: "ys ! 2 = Obj [(js ''type'', Str (js ''image''))]"
    by (auto simp: textCondition_samples)
  show ?thesis using r len y0 y1 y2 by simp
qed




section \<open>A second run of the compressor\<close>

lemma secondPiece_props:
  assumes "sep \<noteq> []"
  shows "\<not> includesStr (secondPiece sep line) sep"
    and "trim (secondPiece sep line) = secondPiece sep line"
    and "includesStr (secondPiece sep line) p \<Longrightarrow> includesStr line p"
proof -
  have "secondPiece sep line = [] \<or>
        (\<exists>p1 \<in> set (splitStr sep line). secondPiece sep line = trim p1)"
  proof (cases "splitStr sep line")
    case Nil
    then show ?thesis by (simp add: secondPiece_def)
  next
    case (Cons p0 ps)
    then show ?thesis by (cases ps) (auto simp: secondPiece_def)
  qed
  then consider "secondPiece sep line = []"
    | p1 where "p1 \<in> set (splitStr sep line)" "secondPiece sep line = trim p1" by blast
  note cases = this
  show "\<not> includesStr (secondPiece sep line) sep"
  proof (cases rule: cases)
    case 1
    then show ?thesis using assms by simp
  next
    case (2 p1)
    have "\<not> sublist sep p1" using splitStr_piece_no_occurrence[OF assms 2(1)] .
    then have "\<not> sublist sep (trim p1)"
      using trim_sublist[of p1] sublist_order.order_trans by blast
    then show ?thesis using 2(2) by (simp add: includesStr_sublist)
  qed
  show "trim (secondPiece sep line) = secondPiece sep line"
  proof (cases rule: cases)
    case 1
    then show ?thesis by (simp add: trim_Nil)
  next
    case (2 p1)
    then show ?thesis by (simp add: trim_idem)
  qed
  show "includesStr line p" if "includesStr (secondPiece sep line) p"
  proof (cases rule: cases)
    case 1
    then have "p = []" using that by simp
    then show ?thesis by (simp add: includesStr_sublist)
  next
    case (2 p1)
    have "sublist p (trim p1)" using that 2(2) by (simp add: includesStr_sublist)
    moreover have "sublist (trim p1) line"
      using trim_sublist[of p1] splitStr_piece_sublist[OF 2(1)] sublist_order.order_trans by blast
    ultimately show ?thesis using sublist_order.order_trans by (auto simp: includesStr_sublist)
  qed
qed

text \<open>
  What the first loop leaves: a url that holds no \<open>URL:\<close>, a title that holds
  neither \<open>URL:\<close> nor \<open>Title:\<close>, both trimmed.
\<close>

lemma headerStep_invariant:
  assumes "\<not> includesStr (fst h) (js ''URL:'') \<and> trim (fst h) = fst h"
    and "\<not> includesStr (snd h) (js ''URL:'') \<and> \<not> includesStr (snd h) (js ''Title:'')
         \<and> trim (snd h) = snd h"
  shows "\<not> includesStr (fst (headerStep h line)) (js ''URL:'')
         \<and> trim (fst (headerStep h line)) = fst (headerStep h line)"
    and "\<not> includesStr (snd (headerStep h line)) (js ''URL:'')
         \<and> \<not> includesStr (snd (headerStep h line)) (js ''Title:'')
         \<and> trim (snd (headerStep h line)) = snd (headerStep h line)"
proof -
  have u: "js ''URL:'' \<noteq> []" and t: "js ''Title:'' \<noteq> []" by (simp_all add: js_simps)
  show "\<not> includesStr (fst (headerStep h line)) (js ''URL:'')
         \<and> trim (fst (headerStep h line)) = fst (headerStep h line)"
    using assms(1) secondPiece_props(1,2)[OF u, of line]
    by (simp add: headerStep_def)
  show "\<not> includesStr (snd (headerStep h line)) (js ''URL:'')
         \<and> \<not> includesStr (snd (headerStep h line)) (js ''Title:'')
         \<and> trim (snd (headerStep h line)) = snd (headerStep h line)"
    using assms(2) secondPiece_props(1,2)[OF t, of line]
      secondPiece_props(3)[OF t, of line "js ''URL:''"]
    by (auto simp: headerStep_def)
qed

lemma foldl_headerStep_invariant:
  assumes "\<not> includesStr (fst h) (js ''URL:'') \<and> trim (fst h) = fst h"
    and "\<not> includesStr (snd h) (js ''URL:'') \<and> \<not> includesStr (snd h) (js ''Title:'')
         \<and> trim (snd h) = snd h"
  shows "(\<not> includesStr (fst (foldl headerStep h ls)) (js ''URL:'')
         \<and> trim (fst (foldl headerStep h ls)) = fst (foldl headerStep h ls))
       \<and> (\<not> includesStr (snd (foldl headerStep h ls)) (js ''URL:'')
         \<and> \<not> includesStr (snd (foldl headerStep h ls)) (js ''Title:'')
         \<and> trim (snd (foldl headerStep h ls)) = snd (foldl headerStep h ls))"
  using assms
proof (induction ls arbitrary: h)
  case Nil
  then show ?case by simp
next
  case (Cons l ls)
  show ?case
    using Cons.IH[OF headerStep_invariant[OF Cons.prems, of l]] by simp
qed

lemma extractHeader_invariant:
  "(\<not> includesStr (fst (extractHeader ls)) (js ''URL:'')
         \<and> trim (fst (extractHeader ls)) = fst (extractHeader ls))
       \<and> (\<not> includesStr (snd (extractHeader ls)) (js ''URL:'')
         \<and> \<not> includesStr (snd (extractHeader ls)) (js ''Title:'')
         \<and> trim (snd (extractHeader ls)) = snd (extractHeader ls))"
  unfolding extractHeader_def
  by (rule foldl_headerStep_invariant) (simp_all add: trim_Nil js_simps)

text \<open>
  Such a header is read back from the lines that were built from it.
\<close>

lemma headerStep_url_line:
  assumes "\<not> includesStr u (js ''URL:'')" "trim u = u"
  shows "headerStep h (js ''URL: '' @ u) = (u, snd h)"
proof -
  have "\<not> sublist (js ''URL:'') (32 # u)"
    using assms(1) by (simp add: sublist_Cons_right includesStr_sublist js_simps)
  then have "splitStr (js ''URL:'') (32 # u) = [32 # u]" by (rule splitStr_no_occurrence)
  then have "splitStr (js ''URL:'') (js ''URL: '' @ u) = [[], 32 # u]"
    by (simp add: js_simps)
  then have "secondPiece (js ''URL:'') (js ''URL: '' @ u) = u"
    using assms(2) by (simp add: secondPiece_def trim_Cons_space isSpace_def)
  moreover have "includesStr (js ''URL: '' @ u) (js ''URL:'')" by (simp add: js_simps)
  ultimately show ?thesis by (simp add: headerStep_def js_simps)
qed

lemma headerStep_title_line:
  assumes "\<not> includesStr t (js ''URL:'')" "\<not> includesStr t (js ''Title:'')" "trim t = t"
  shows "headerStep h (js ''Title: '' @ t) = (fst h, t)"
proof -
  have "\<not> sublist (js ''Title:'') (32 # t)"
    using assms(2) by (simp add: sublist_Cons_right includesStr_sublist js_simps)
  then have "splitStr (js ''Title:'') (32 # t) = [32 # t]" by (rule splitStr_no_occurrence)
  then have "splitStr (js ''Title:'') (js ''Title: '' @ t) = [[], 32 # t]"
    by (simp add: js_simps)
  then have sp: "secondPiece (js ''Title:'') (js ''Title: '' @ t) = t"
    using assms(3) by (simp add: secondPiece_def trim_Cons_space isSpace_def)
  have nu: "\<not> includesStr (js ''Title: '' @ t) (js ''URL:'')"
    using assms(1) by (simp add: js_simps)
  have it: "includesStr (js ''Title: '' @ t) (js ''Title:'')" by (simp add: js_simps)
  show ?thesis unfolding headerStep_def using sp nu it by (simp add: js_simps)
qed

lemma headerStep_other_lines:
  "headerStep h [] = h" "headerStep h banner = h"
  "headerStep h (js ''Total interactive elements: 0'') = h"
  by (simp_all add: headerStep_def banner_def js_simps)

lemma extractHeader_of_own_output:
  assumes "\<not> includesStr (fst h) (js ''URL:'')" "trim (fst h) = fst h"
    and "\<not> includesStr (snd h) (js ''URL:'')" "\<not> includesStr (snd h) (js ''Title:'')"
        "trim (snd h) = snd h"
  shows "extractHeader (initialOutput h @ [[], js ''Total interactive elements: 0'']) = h"
proof -
  have "extractHeader (initialOutput h @ [[], js ''Total interactive elements: 0''])
      = foldl headerStep ([], []) (initialOutput h @ [[], js ''Total interactive elements: 0''])"
    by (simp add: extractHeader_def initialOutput_def)
  also have "\<dots> = (fst h, snd h)"
    using headerStep_url_line[OF assms(1,2)] headerStep_title_line[OF assms(3,4,5)]
    by (cases h) (simp add: initialOutput_def headerStep_other_lines)
  finally show ?thesis by simp
qed

text \<open>
  No line of the compressor's output parses as an element: none begins with a hyphen.
\<close>

lemma own_lines_do_not_parse:
  assumes "l \<in> set (trimLines t)"
  shows "parseYAMLLine (trim l) = None"
proof -
  let ?ls = "splitStr [10] t"
  have e: "parseYAMLLine (trim []) = None"
    by (simp add: trim_Nil parseYAMLLine_def matchRole_def)
  from assms consider "l \<in> set (initialOutput (extractHeader ?ls))"
    | "l \<in> set (filterLines False 0 [] ?ls)" | "l = []"
    | "l = summaryLine (initialOutput (extractHeader ?ls) @ filterLines False 0 [] ?ls @ [[]])"
    unfolding trimLines_shape by auto
  then show ?thesis
  proof cases
    case 1
    then have "l = [] \<or> (\<exists>r. l = 85 # r) \<or> (\<exists>r. l = 84 # r) \<or> (\<exists>r. l = 73 # r)"
      by (auto simp: initialOutput_def banner_def js_simps split: if_splits)
    then show ?thesis using e by (auto simp: parseYAMLLine_first_unit isSpace_def)
  next
    case 2
    from filterLines_emitted[OF this] obtain el where "formatElement el = Some l" by blast
    then obtain r where "l = 91 # r" using formatElement_Some(2) by blast
    then show ?thesis by (simp add: parseYAMLLine_first_unit isSpace_def)
  next
    case 3
    then show ?thesis using e by simp
  next
    case 4
    then have "\<exists>r. l = 84 # r" by (simp add: summaryLine_def js_simps)
    then show ?thesis by (auto simp: parseYAMLLine_first_unit isSpace_def)
  qed
qed

lemma second_run_emits_nothing:
  "filterLines b d out (splitStr [10] (trimYAMLSnapshot t)) = out"
  unfolding lines_of_trimYAMLSnapshot
  by (rule filterLines_nothing_parses) (simp add: own_lines_do_not_parse)

text \<open>
  A text whose compression has no entry is compressed to a fixed point.
\<close>

lemma idempotent_without_entries:
  assumes "filterLines False 0 [] (splitStr [10] y) = []"
  shows "trimYAMLSnapshot (trimYAMLSnapshot y) = trimYAMLSnapshot y"
proof -
  let ?h = "extractHeader (splitStr [10] y)"
  have l1: "trimLines y = initialOutput ?h @ [[], js ''Total interactive elements: 0'']"
    using assms by (rule trimLines_no_entries)
  have h: "extractHeader (splitStr [10] (trimYAMLSnapshot y)) = ?h"
    unfolding lines_of_trimYAMLSnapshot l1 using extractHeader_invariant[of "splitStr [10] y"]
    by (intro extractHeader_of_own_output) simp_all
  have "filterLines False 0 [] (splitStr [10] (trimYAMLSnapshot y)) = []"
    by (rule second_run_emits_nothing)
  then have "trimLines (trimYAMLSnapshot y)
      = initialOutput (extractHeader (splitStr [10] (trimYAMLSnapshot y)))
          @ [[], js ''Total interactive elements: 0'']"
    by (rule trimLines_no_entries)
  also have "\<dots> = trimLines y"
    by (simp only: h l1)
  finally show ?thesis by (simp add: trimYAMLSnapshot_def)
qed

text \<open>
  Claim C7 says that running the compressor on its own output changes nothing beyond
  the count line. The entries it writes, \<open>[ref] role "name"\<close>, are not the lines it
  reads, \<open>- role "name" [ref=...]\<close>: the second run of the one-line snapshot loses
  the entry \<open>[e1] button "OK"\<close> and counts 0 where the first run counted 1.
\<close>

theorem compressor_not_idempotent_counterexample:
  "trimYAMLSnapshot (js ''- button \"OK\" [ref=e1]'')
     = joinStr [10] [[], banner, [], js ''[e1] button \"OK\"'', [],
                     js ''Total interactive elements: 1'']
   \<and> trimYAMLSnapshot (trimYAMLSnapshot (js ''- button \"OK\" [ref=e1]''))
     = joinStr [10] [[], banner, [], [], js ''Total interactive elements: 0'']
   \<and> trimYAMLSnapshot (trimYAMLSnapshot (js ''- button \"OK\" [ref=e1]''))
     \<noteq> trimYAMLSnapshot (js ''- button \"OK\" [ref=e1]'')"
proof -
  let ?x = "js ''- button \"OK\" [ref=e1]''"
  have a: "trimYAMLSnapshot ?x
     = joinStr [10] [[], banner, [], js ''[e1] button \"OK\"'', [],
                     js ''Total interactive elements: 1'']"
    by (simp only: trimYAMLSnapshot_def sample_trimLines)
  have "filterLines False 0 [] (splitStr [10] (trimYAMLSnapshot ?x)) = []"
    by (rule second_run_emits_nothing)
  then have "trimLines (trimYAMLSnapshot ?x)
      = initialOutput (extractHeader (splitStr [10] (trimYAMLSnapshot ?x)))
          @ [[], js ''Total interactive elements: 0'']"
    by (rule trimLines_no_entries)
  also have "\<dots> = [[], banner, [], [], js ''Total interactive elements: 0'']"
    unfolding lines_of_trimYAMLSnapshot sample_trimLines sample_second_header
    by (simp add: initialOutput_def)
  finally have b: "trimYAMLSnapshot (trimYAMLSnapshot ?x)
     = joinStr [10] [[], banner, [], [], js ''Total interactive elements: 0'']"
    by (simp only: trimYAMLSnapshot_def)
  have "joinStr [10] [[], banner, [], [], js ''Total interactive elements: 0'']
      \<noteq> joinStr [10] [[], banner, [], js ''[e1] button \"OK\"'', [],
                     js ''Total interactive elements: 1'']"
    by (simp add: js_simps)
  then show ?thesis using a b by simp
qed

text \<open>
  Claim C7, amended: a second run of the compressor on its own output keeps no element
  entry: its output is the header read from the first output, the banner and the line
  \<open>Total interactive elements: 0\<close>, and no line of it begins with a bracket. From
  there on the output is stable: a third run returns the text of the second run.
\<close>

theorem second_run_drops_entries_then_stable:
  "trimYAMLSnapshot (trimYAMLSnapshot t)
     = joinStr [10] (initialOutput (extractHeader (splitStr [10] (trimYAMLSnapshot t)))
                      @ [[], js ''Total interactive elements: 0''])
   \<and> filter (\<lambda>l. startsWith l (js ''['')) (splitStr [10] (trimYAMLSnapshot (trimYAMLSnapshot t))) = []
   \<and> trimYAMLSnapshot (trimYAMLSnapshot (trimYAMLSnapshot t)) = trimYAMLSnapshot (trimYAMLSnapshot t)"
proof (intro conjI)
  have none: "filterLines False 0 [] (splitStr [10] (trimYAMLSnapshot t)) = []"
    by (rule second_run_emits_nothing)
  then have l2: "trimLines (trimYAMLSnapshot t)
      = initialOutput (extractHeader (splitStr [10] (trimYAMLSnapshot t)))
          @ [[], js ''Total interactive elements: 0'']"
    by (rule trimLines_no_entries)
  then show "trimYAMLSnapshot (trimYAMLSnapshot t)
     = joinStr [10] (initialOutput (extractHeader (splitStr [10] (trimYAMLSnapshot t)))
                      @ [[], js ''Total interactive elements: 0''])"
    by (simp add: trimYAMLSnapshot_def)
  show "filter (\<lambda>l. startsWith l (js ''['')) (splitStr [10] (trimYAMLSnapshot (trimYAMLSnapshot t))) = []"
    unfolding lines_of_trimYAMLSnapshot l2
    using initialOutput_no_bracket by (auto simp: filter_empty_conv js_simps)
  show "trimYAMLSnapshot (trimYAMLSnapshot (trimYAMLSnapshot t)) = trimYAMLSnapshot (trimYAMLSnapshot t)"
    using none by (rule idempotent_without_entries)
qed

end
